theory Spec2Isabelle
  imports Complex_Main
begin

section \<open>Data model of the prescription data analyzer\<close>

text \<open>
  The aggregators of \<^verbatim>\<open>src/utils/useful_utilities.py\<close> work on Python dictionaries
  assembled field by field by \<^verbatim>\<open>read_claims\<close> and \<^verbatim>\<open>read_reverts\<close>: a key is present only
  if the parser met it. A dictionary is therefore a record whose fields are optional,
  \<open>None\<close> standing for an absent key.
\<close>

datatype error = KeyError string | ZeroDivisionError

text \<open>
  A price is a Python float, which \<^verbatim>\<open>read_claims\<close> makes with \<^verbatim>\<open>float(value)\<close>: a JSON number too
  large for a double becomes \<^verbatim>\<open>inf\<close>. The special values of a double are kept, since sums,
  averages and comparisons treat them apart; finite values are idealised as real numbers
  (rounding and overflow of finite arithmetic are not modelled). Quantities are only compared
  for equality and are idealised as real numbers.
\<close>

datatype float64 = Finite real | PosInf | NegInf | NaN

text \<open>\<^verbatim>\<open>x + y\<close> on floats: \<^verbatim>\<open>inf + (-inf)\<close> is \<^verbatim>\<open>nan\<close>, and \<^verbatim>\<open>nan\<close> absorbs.\<close>

fun fadd :: "float64 \<Rightarrow> float64 \<Rightarrow> float64" where
  "fadd NaN y = NaN"
| "fadd x NaN = NaN"
| "fadd (Finite a) (Finite b) = Finite (a + b)"
| "fadd (Finite a) PosInf = PosInf"
| "fadd (Finite a) NegInf = NegInf"
| "fadd PosInf (Finite b) = PosInf"
| "fadd PosInf PosInf = PosInf"
| "fadd PosInf NegInf = NaN"
| "fadd NegInf (Finite b) = NegInf"
| "fadd NegInf NegInf = NegInf"
| "fadd NegInf PosInf = NaN"

text \<open>\<^verbatim>\<open>-x\<close> on floats.\<close>

fun fneg :: "float64 \<Rightarrow> float64" where
  "fneg (Finite a) = Finite (- a)"
| "fneg PosInf = NegInf"
| "fneg NegInf = PosInf"
| "fneg NaN = NaN"

text \<open>
  \<^verbatim>\<open>x / n\<close> for a float \<open>x\<close> and a nonzero integer \<open>n\<close> (the callers test \<open>n\<close> against zero
  first): an infinity keeps or changes its sign with the sign of \<open>n\<close>.
\<close>

fun fdiv :: "float64 \<Rightarrow> int \<Rightarrow> float64" where
  "fdiv (Finite a) n = Finite (a / real_of_int n)"
| "fdiv PosInf n = (if 0 < n then PosInf else NegInf)"
| "fdiv NegInf n = (if 0 < n then NegInf else PosInf)"
| "fdiv NaN n = NaN"

text \<open>\<^verbatim>\<open>sum(xs)\<close>: the elements are added from left to right, starting from 0.\<close>

definition fsum :: "float64 list \<Rightarrow> float64" where
  "fsum xs = foldl fadd (Finite 0) xs"

text \<open>\<^verbatim>\<open>x < y\<close> and \<^verbatim>\<open>x <= y\<close> on floats: every comparison with \<^verbatim>\<open>nan\<close> is false.\<close>

fun flt :: "float64 \<Rightarrow> float64 \<Rightarrow> bool" where
  "flt NaN y = False"
| "flt x NaN = False"
| "flt (Finite a) (Finite b) = (a < b)"
| "flt (Finite a) PosInf = True"
| "flt (Finite a) NegInf = False"
| "flt PosInf y = False"
| "flt NegInf NegInf = False"
| "flt NegInf y = True"

fun fle :: "float64 \<Rightarrow> float64 \<Rightarrow> bool" where
  "fle NaN y = False"
| "fle x NaN = False"
| "fle (Finite a) (Finite b) = (a \<le> b)"
| "fle (Finite a) PosInf = True"
| "fle (Finite a) NegInf = False"
| "fle PosInf PosInf = True"
| "fle PosInf y = False"
| "fle NegInf y = True"

record claim =
  c_id :: "string option"
  c_npi :: "string option"
  c_ndc :: "string option"
  c_price :: "float64 option"
  c_quantity :: "real option"
  c_timestamp :: "string option"

record revert =
  r_id :: "string option"
  r_claim_id :: "string option"
  r_timestamp :: "string option"

text \<open>The accumulator \<^verbatim>\<open>{'fills': 0, 'reverted': 0, 'total_price': 0.0}\<close> of \<^verbatim>\<open>calculate_metrics\<close>.\<close>

record metric =
  m_fills :: int
  m_reverted :: int
  m_total_price :: float64

text \<open>The dictionaries returned by the three aggregators.\<close>

record metric_record =
  npi :: string
  ndc :: string
  fills :: int
  reverted :: int
  avg_price :: float64
  total_price :: float64

record chain_recommendation =
  chain_name :: string
  chain_avg_price :: float64

record ndc_recommendation =
  rec_ndc :: string
  rec_chain :: "chain_recommendation list"

record ndc_most_prescribed =
  mp_ndc :: string
  most_prescribed_quantity :: "real list"

section \<open>Python dictionaries and loops\<close>

text \<open>
  \<^verbatim>\<open>d[k]\<close> on a plain dictionary raises \<^verbatim>\<open>KeyError(k)\<close> when the key is absent.
\<close>

definition getitem :: "string \<Rightarrow> 'a option \<Rightarrow> error + 'a" where
  "getitem k v = (case v of None \<Rightarrow> Inl (KeyError k) | Some x \<Rightarrow> Inr x)"

text \<open>
  A \<^verbatim>\<open>defaultdict\<close> keeps its keys in the order of their first insertion, so it is an
  association list. \<open>dd_apply d f k m\<close> is the in-place update \<^verbatim>\<open>m[k] = f(m[k])\<close>, where
  reading an absent key first inserts the default \<open>d\<close> at the end.
\<close>

fun dd_apply :: "'v \<Rightarrow> ('v \<Rightarrow> 'v) \<Rightarrow> 'k \<Rightarrow> ('k \<times> 'v) list \<Rightarrow> ('k \<times> 'v) list" where
  "dd_apply d f k [] = [(k, f d)]"
| "dd_apply d f k ((k', v) # kvs) =
     (if k' = k then (k', f v) # kvs else (k', v) # dd_apply d f k kvs)"

text \<open>Reading \<^verbatim>\<open>m[k]\<close> with the default for an absent key.\<close>

definition dd_get :: "'v \<Rightarrow> ('k \<times> 'v) list \<Rightarrow> 'k \<Rightarrow> 'v" where
  "dd_get d m k = (case map_of m k of None \<Rightarrow> d | Some v \<Rightarrow> v)"

text \<open>Sequencing: an exception raised by the first computation skips the rest.\<close>

definition and_then :: "error + 'a \<Rightarrow> ('a \<Rightarrow> error + 'b) \<Rightarrow> error + 'b" where
  "and_then r k = (case r of Inl e \<Rightarrow> Inl e | Inr x \<Rightarrow> k x)"

text \<open>A \<^verbatim>\<open>for\<close> loop whose body may raise: the first exception ends the loop.\<close>

fun for_each :: "('a \<Rightarrow> 's \<Rightarrow> error + 's) \<Rightarrow> 'a list \<Rightarrow> 's \<Rightarrow> error + 's" where
  "for_each body [] s = Inr s"
| "for_each body (x # xs) s =
     and_then (body x s) (\<lambda>s'. for_each body xs s')"

text \<open>A comprehension or an appending loop whose element expression may raise.\<close>

fun collect :: "('a \<Rightarrow> error + 'b) \<Rightarrow> 'a list \<Rightarrow> error + 'b list" where
  "collect g [] = Inr []"
| "collect g (x # xs) =
     and_then (g x) (\<lambda>y. and_then (collect g xs) (\<lambda>ys. Inr (y # ys)))"

section \<open>Reversal index\<close>

text \<open>\<^verbatim>\<open>reverted_claims = set(revert['claim_id'] for revert in reverts)\<close>\<close>

definition reverted_claims :: "revert list \<Rightarrow> error + string set" where
  "reverted_claims reverts =
     and_then (collect (\<lambda>r. getitem ''claim_id'' (r_claim_id r)) reverts)
       (\<lambda>ids. Inr (set ids))"

section \<open>calculate\_metrics\<close>

definition default_metric :: metric where
  "default_metric = \<lparr>m_fills = 0, m_reverted = 0, m_total_price = Finite 0\<rparr>"

text \<open>The body of the loop over the claims, statement by statement.\<close>

definition metrics_body ::
  "string set \<Rightarrow> claim \<Rightarrow> ((string \<times> string) \<times> metric) list
     \<Rightarrow> error + ((string \<times> string) \<times> metric) list" where
  "metrics_body reverted_set c metrics =
     and_then (getitem ''npi'' (c_npi c)) (\<lambda>n.
     and_then (getitem ''ndc'' (c_ndc c)) (\<lambda>d.
     let key = (n, d);
         metrics1 = dd_apply default_metric (\<lambda>m. m\<lparr>m_fills := m_fills m + 1\<rparr>) key metrics
     in
     and_then (getitem ''price'' (c_price c)) (\<lambda>p.
     let metrics2 =
           dd_apply default_metric (\<lambda>m. m\<lparr>m_total_price := fadd (m_total_price m) p\<rparr>) key metrics1
     in
     and_then (getitem ''id'' (c_id c)) (\<lambda>i.
     if i \<in> reverted_set
     then Inr (dd_apply default_metric (\<lambda>m. m\<lparr>m_reverted := m_reverted m + 1\<rparr>) key metrics2)
     else Inr metrics2))))"

definition emit_metric :: "(string \<times> string) \<times> metric \<Rightarrow> metric_record" where
  "emit_metric entry =
     (case entry of ((n, d), m) \<Rightarrow>
        \<lparr>npi = n, ndc = d, fills = m_fills m, reverted = m_reverted m,
         avg_price = (if m_fills m \<noteq> 0 then fdiv (m_total_price m) (m_fills m) else Finite 0),
         total_price = m_total_price m\<rparr>)"

definition calculate_metrics :: "claim list \<Rightarrow> revert list \<Rightarrow> error + metric_record list" where
  "calculate_metrics claims reverts =
     and_then (reverted_claims reverts) (\<lambda>reverted_set.
     and_then (for_each (metrics_body reverted_set) claims []) (\<lambda>metrics.
     Inr (map emit_metric metrics)))"

section \<open>recommendations\<close>

text \<open>\<^verbatim>\<open>pharmacy_chains.get(npi, 'Unknown')\<close>\<close>

definition chain_of :: "(string \<rightharpoonup> string) \<Rightarrow> string \<Rightarrow> string" where
  "chain_of pharmacy_chains n =
     (case pharmacy_chains n of None \<Rightarrow> ''Unknown'' | Some ch \<Rightarrow> ch)"

text \<open>\<^verbatim>\<open>ndc_metrics[ndc][chain].append(x)\<close> on the nested \<^verbatim>\<open>defaultdict\<close>.\<close>

definition append_price ::
  "string \<Rightarrow> string \<Rightarrow> float64 \<Rightarrow> (string \<times> (string \<times> float64 list) list) list
     \<Rightarrow> (string \<times> (string \<times> float64 list) list) list" where
  "append_price d ch x ndc_metrics =
     dd_apply [] (dd_apply [] (\<lambda>prices. prices @ [x]) ch) d ndc_metrics"

definition recommend_body ::
  "string set \<Rightarrow> (string \<rightharpoonup> string) \<Rightarrow> claim \<Rightarrow> (string \<times> (string \<times> float64 list) list) list
     \<Rightarrow> error + (string \<times> (string \<times> float64 list) list) list" where
  "recommend_body reverted_set pharmacy_chains c ndc_metrics =
     and_then (getitem ''npi'' (c_npi c)) (\<lambda>n.
     and_then (getitem ''ndc'' (c_ndc c)) (\<lambda>d.
     let ch = chain_of pharmacy_chains n in
     and_then (getitem ''price'' (c_price c)) (\<lambda>p.
     let ndc_metrics1 = append_price d ch p ndc_metrics in
     and_then (getitem ''id'' (c_id c)) (\<lambda>i.
     if i \<in> reverted_set
     then Inr (append_price d ch (fneg p) ndc_metrics1)
     else Inr ndc_metrics1))))"

text \<open>\<^verbatim>\<open>avg_price = sum(prices) / len(prices)\<close>, which raises on an empty list.\<close>

definition chain_average :: "string \<times> float64 list \<Rightarrow> error + chain_recommendation" where
  "chain_average entry =
     (case entry of (ch, prices) \<Rightarrow>
        if length prices = 0 then Inl ZeroDivisionError
        else Inr \<lparr>chain_name = ch, chain_avg_price = fdiv (fsum prices) (int (length prices))\<rparr>)"

text \<open>
  \<^verbatim>\<open>list.sort(key=...)\<close> compares the keys with \<^verbatim>\<open><\<close> only. When no key is \<^verbatim>\<open>nan\<close> the keys
  are totally ordered and the result is the stable sorted list, whatever the length: it is
  computed here by insertion, an element going before the first element that is not less
  than it.
\<close>

fun insert_by_key :: "('a \<Rightarrow> float64) \<Rightarrow> 'a \<Rightarrow> 'a list \<Rightarrow> 'a list" where
  "insert_by_key key x [] = [x]"
| "insert_by_key key x (y # ys) =
     (if flt (key y) (key x) then y # insert_by_key key x ys else x # y # ys)"

definition stable_sort :: "('a \<Rightarrow> float64) \<Rightarrow> 'a list \<Rightarrow> 'a list" where
  "stable_sort key xs = foldr (insert_by_key key) xs []"

text \<open>
  With a \<^verbatim>\<open>nan\<close> among the keys the result depends on the comparisons that CPython's sort
  makes. For a list of fewer than 64 elements (\<^verbatim>\<open>listobject.c\<close>, through CPython 3.12) it
  takes the run at the start of the list (\<^verbatim>\<open>count_run\<close>: strictly descending if the second
  element is less than the first, and then reversed; otherwise running as long as no element
  is less than the one before it) and puts each later element into place by binary insertion
  (\<^verbatim>\<open>binarysort\<close>). In particular a list in which no element is less than the one before it
  is a single run and is left as it is; this holds in every version and at every length.
  The order that CPython gives to 64 or more keys with a \<^verbatim>\<open>nan\<close> among them is not modelled.
\<close>

fun ascending_more :: "('a \<Rightarrow> float64) \<Rightarrow> 'a \<Rightarrow> 'a list \<Rightarrow> nat" where
  "ascending_more key prev [] = 0"
| "ascending_more key prev (x # xs) =
     (if flt (key x) (key prev) then 0 else Suc (ascending_more key x xs))"

fun descending_more :: "('a \<Rightarrow> float64) \<Rightarrow> 'a \<Rightarrow> 'a list \<Rightarrow> nat" where
  "descending_more key prev [] = 0"
| "descending_more key prev (x # xs) =
     (if flt (key x) (key prev) then Suc (descending_more key x xs) else 0)"

fun count_run :: "('a \<Rightarrow> float64) \<Rightarrow> 'a list \<Rightarrow> nat \<times> bool" where
  "count_run key (x0 # x1 # xs) =
     (if flt (key x1) (key x0) then (2 + descending_more key x1 xs, True)
      else (2 + ascending_more key x1 xs, False))"
| "count_run key xs = (length xs, False)"

text \<open>
  The binary search of \<^verbatim>\<open>binarysort\<close> for the place of \<open>pivot\<close> in \<open>xs\<close> between \<open>l\<close> and \<open>r\<close>;
  the index \<open>l + (r - l) div 2\<close> that it reads is below \<open>r\<close>, which never exceeds the length.
\<close>

function bisect :: "('a \<Rightarrow> float64) \<Rightarrow> 'a \<Rightarrow> 'a list \<Rightarrow> nat \<Rightarrow> nat \<Rightarrow> nat" where
  "bisect key pivot xs l r =
     (if l < r
      then (if flt (key pivot) (key (xs ! (l + (r - l) div 2)))
            then bisect key pivot xs l (l + (r - l) div 2)
            else bisect key pivot xs (Suc (l + (r - l) div 2)) r)
      else l)"
  by pat_completeness auto
termination
  by (relation "measure (\<lambda>(key, pivot, xs, l, r). r - l)") auto

declare bisect.simps [simp del]

definition binary_insert :: "('a \<Rightarrow> float64) \<Rightarrow> 'a list \<Rightarrow> 'a \<Rightarrow> 'a list" where
  "binary_insert key xs pivot =
     (let l = bisect key pivot xs 0 (length xs) in take l xs @ pivot # drop l xs)"

definition binarysort :: "('a \<Rightarrow> float64) \<Rightarrow> 'a list \<Rightarrow> 'a list \<Rightarrow> 'a list" where
  "binarysort key run rest = foldl (binary_insert key) run rest"

definition short_sort :: "('a \<Rightarrow> float64) \<Rightarrow> 'a list \<Rightarrow> 'a list" where
  "short_sort key xs =
     (case count_run key xs of (n, descending) \<Rightarrow>
        binarysort key (if descending then rev (take n xs) else take n xs) (drop n xs))"

definition list_sort :: "('a \<Rightarrow> float64) \<Rightarrow> 'a list \<Rightarrow> 'a list" where
  "list_sort key xs =
     (if list_all (\<lambda>x. key x \<noteq> NaN) xs then stable_sort key xs else short_sort key xs)"

text \<open>\<^verbatim>\<open>[:2]\<close> is \<open>take 2\<close>.\<close>

definition ndc_entry ::
  "string \<times> (string \<times> float64 list) list \<Rightarrow> error + ndc_recommendation" where
  "ndc_entry entry =
     (case entry of (d, chain_metrics) \<Rightarrow>
        and_then (collect chain_average chain_metrics) (\<lambda>chain_recommendations.
          Inr \<lparr>rec_ndc = d,
               rec_chain = take 2 (list_sort chain_avg_price chain_recommendations)\<rparr>))"

definition recommendations ::
  "claim list \<Rightarrow> revert list \<Rightarrow> (string \<rightharpoonup> string) \<Rightarrow> error + ndc_recommendation list" where
  "recommendations claims reverts pharmacy_chains =
     and_then (reverted_claims reverts) (\<lambda>reverted_set.
     and_then (for_each (recommend_body reverted_set pharmacy_chains) claims []) (\<lambda>ndc_metrics.
     collect ndc_entry ndc_metrics))"

section \<open>most\_prescribed\<close>

text \<open>\<^verbatim>\<open>claim.get('quantity', 0.0)\<close>\<close>

definition quantity_of :: "claim \<Rightarrow> real" where
  "quantity_of c = (case c_quantity c of None \<Rightarrow> 0 | Some q \<Rightarrow> q)"

definition prescribed_body ::
  "string set \<Rightarrow> claim \<Rightarrow> (string \<times> real list) list \<Rightarrow> error + (string \<times> real list) list" where
  "prescribed_body reverted_set c ndc_quantities =
     and_then (getitem ''npi'' (c_npi c)) (\<lambda>n.
     and_then (getitem ''ndc'' (c_ndc c)) (\<lambda>d.
     let quantity = quantity_of c in
     and_then (getitem ''id'' (c_id c)) (\<lambda>i.
     if i \<notin> reverted_set
     then Inr (dd_apply [] (\<lambda>quantities. quantities @ [quantity]) d ndc_quantities)
     else Inr ndc_quantities)))"

text \<open>
  \<^verbatim>\<open>Counter(quantities)\<close> counts the elements from left to right in a dictionary, so
  its keys are in the order of first occurrence.
\<close>

definition counter :: "'a list \<Rightarrow> ('a \<times> int) list" where
  "counter xs = fold (\<lambda>x cnt. dd_apply 0 (\<lambda>n. n + 1) x cnt) xs []"

text \<open>
  \<^verbatim>\<open>most_common()\<close> is \<^verbatim>\<open>sorted(self.items(), key=itemgetter(1), reverse=True)\<close>: a stable
  sort by descending count, that is a stable ascending sort by the negated count.
\<close>

definition most_common :: "('a \<times> int) list \<Rightarrow> ('a \<times> int) list" where
  "most_common items = sort_key (\<lambda>item. - snd item) items"

definition prescribed_entry :: "string \<times> real list \<Rightarrow> ndc_most_prescribed" where
  "prescribed_entry entry =
     (case entry of (d, quantities) \<Rightarrow>
        \<lparr>mp_ndc = d, most_prescribed_quantity = map fst (most_common (counter quantities))\<rparr>)"

definition most_prescribed :: "claim list \<Rightarrow> revert list \<Rightarrow> error + ndc_most_prescribed list" where
  "most_prescribed claims reverts =
     and_then (reverted_claims reverts) (\<lambda>reverted_set.
     and_then (for_each (prescribed_body reverted_set) claims []) (\<lambda>ndc_quantities.
     Inr (map prescribed_entry ndc_quantities)))"

section \<open>Auxiliary notions for the proofs\<close>

text \<open>
  The three updates that one claim makes to the accumulator of its key in
  \<^verbatim>\<open>calculate_metrics\<close>, taken together; \<open>b\<close> tells whether the claim is reverted.
\<close>

definition account :: "float64 \<Rightarrow> bool \<Rightarrow> metric \<Rightarrow> metric" where
  "account p b m =
     \<lparr>m_fills = m_fills m + 1, m_reverted = m_reverted m + (if b then 1 else 0),
      m_total_price = fadd (m_total_price m) p\<rparr>"

text \<open>
  The keys that \<^verbatim>\<open>calculate_metrics\<close> and \<^verbatim>\<open>recommendations\<close> read with \<^verbatim>\<open>claim[...]\<close>, and
  the key that the reversal index reads with \<^verbatim>\<open>revert['claim_id']\<close>.
\<close>

definition claim_complete :: "claim \<Rightarrow> bool" where
  "claim_complete c \<longleftrightarrow>
     c_id c \<noteq> None \<and> c_npi c \<noteq> None \<and> c_ndc c \<noteq> None \<and> c_price c \<noteq> None"

definition revert_complete :: "revert \<Rightarrow> bool" where
  "revert_complete r \<longleftrightarrow> r_claim_id r \<noteq> None"

text \<open>An accumulator with its \<^verbatim>\<open>reverted\<close> counter reset.\<close>

definition without_reverted :: "metric \<Rightarrow> metric" where
  "without_reverted m = m\<lparr>m_reverted := 0\<rparr>"

text \<open>
  The prices that one claim appends to its price list in \<^verbatim>\<open>recommendations\<close>: its price and,
  when its id is in the reversal set, the negated price after it.
\<close>

definition price_samples :: "string set \<Rightarrow> claim \<Rightarrow> float64 list" where
  "price_samples S c =
     (case c_price c of None \<Rightarrow> []
      | Some p \<Rightarrow> (case c_id c of None \<Rightarrow> []
                   | Some i \<Rightarrow> if i \<in> S then [p, fneg p] else [p]))"

text \<open>The claims of drug \<open>d\<close> whose npi resolves to chain \<open>ch\<close>.\<close>

definition sold_by :: "(string \<rightharpoonup> string) \<Rightarrow> string \<Rightarrow> string \<Rightarrow> claim \<Rightarrow> bool" where
  "sold_by pharmacy_chains d ch c \<longleftrightarrow>
     c_ndc c = Some d \<and> (case c_npi c of None \<Rightarrow> False | Some n \<Rightarrow> chain_of pharmacy_chains n = ch)"

text \<open>The price list of a drug and a chain, written as a comprehension over the claims.\<close>

definition chain_prices ::
  "string set \<Rightarrow> (string \<rightharpoonup> string) \<Rightarrow> claim list \<Rightarrow> string \<Rightarrow> string \<Rightarrow> float64 list" where
  "chain_prices S pharmacy_chains claims d ch =
     concat (map (price_samples S) (filter (sold_by pharmacy_chains d ch) claims))"

text \<open>
  Shape of the nested dictionary \<^verbatim>\<open>ndc_metrics\<close>: keys occur once at both levels and no
  price list is empty.
\<close>

definition nonempty_lists :: "('k \<times> 'a list) list \<Rightarrow> bool" where
  "nonempty_lists inner \<longleftrightarrow> (\<forall>cv \<in> set inner. snd cv \<noteq> [])"

definition well_keyed :: "('k \<times> ('c \<times> 'a list) list) list \<Rightarrow> bool" where
  "well_keyed m \<longleftrightarrow>
     distinct (map fst m) \<and> (\<forall>kv \<in> set m. distinct (map fst (snd kv)) \<and> nonempty_lists (snd kv))"

text \<open>The position at which a value is first met in a list.\<close>

definition first_index :: "'a list \<Rightarrow> 'a \<Rightarrow> nat" where
  "first_index xs x = length (takeWhile (\<lambda>y. y \<noteq> x) xs)"

text \<open>
  The quantities of the claims of drug \<open>d\<close> whose id is not in the reversal set, in the order of
  the claims; an absent quantity counts as 0.
\<close>

definition kept_quantities :: "string set \<Rightarrow> claim list \<Rightarrow> string \<Rightarrow> real list" where
  "kept_quantities S claims d =
     map quantity_of
       (filter (\<lambda>c. c_ndc c = Some d \<and> (case c_id c of None \<Rightarrow> False | Some i \<Rightarrow> i \<notin> S)) claims)"

text \<open>
  The order of a ranking over the list \<open>xs\<close>: the more frequent value first, and of two equally
  frequent values the one that is met first in \<open>xs\<close>.
\<close>

definition ranks_before :: "'a list \<Rightarrow> 'a \<Rightarrow> 'a \<Rightarrow> bool" where
  "ranks_before xs a b \<longleftrightarrow>
     count_list xs b < count_list xs a \<or>
     (count_list xs a = count_list xs b \<and> first_index xs a < first_index xs b)"

text \<open>A claim of drug d1 with a given id and quantity, for examples.\<close>

definition quantity_claim :: "string \<Rightarrow> real \<Rightarrow> claim" where
  "quantity_claim i q =
     \<lparr>c_id = Some i, c_npi = Some ''p1'', c_ndc = Some ''d1'', c_price = Some (Finite 1),
      c_quantity = Some q, c_timestamp = Some ''t''\<rparr>"

text \<open>The average that \<^verbatim>\<open>recommendations\<close> computes for a price list.\<close>

definition mean :: "float64 list \<Rightarrow> float64" where
  "mean prices = fdiv (fsum prices) (int (length prices))"

text \<open>A claim of drug d1 with a given id, npi and price, and a revert of a given claim id.\<close>

definition priced_claim :: "string \<Rightarrow> string \<Rightarrow> float64 \<Rightarrow> claim" where
  "priced_claim i n p =
     \<lparr>c_id = Some i, c_npi = Some n, c_ndc = Some ''d1'', c_price = Some p,
      c_quantity = Some 1, c_timestamp = Some ''t''\<rparr>"

definition revert_of :: "string \<Rightarrow> revert" where
  "revert_of i = \<lparr>r_id = Some ''r'', r_claim_id = Some i, r_timestamp = Some ''t''\<rparr>"

text \<open>The distinct elements of a list in the order in which they are first met.\<close>

fun first_seen :: "'a list \<Rightarrow> 'a list" where
  "first_seen [] = []"
| "first_seen (x # xs) = x # filter (\<lambda>y. y \<noteq> x) (first_seen xs)"

text \<open>
  The result of \<^verbatim>\<open>recommendations\<close> written from the description of the chain recommender: the
  drugs in the order of the claims; for a drug its chains in the order of the claims, a claim
  whose npi is not in the directory counting for the chain \<open>''Unknown''\<close>; for each chain the
  average of its price list; the chains sorted by average and the first two kept.
\<close>

definition ndcs_of :: "claim list \<Rightarrow> string list" where
  "ndcs_of claims = first_seen (List.map_filter c_ndc claims)"

definition chains_of :: "(string \<rightharpoonup> string) \<Rightarrow> claim list \<Rightarrow> string \<Rightarrow> string list" where
  "chains_of pharmacy_chains claims d =
     first_seen (List.map_filter
       (\<lambda>c. if c_ndc c = Some d then map_option (chain_of pharmacy_chains) (c_npi c) else None)
       claims)"

definition chain_record ::
  "string set \<Rightarrow> (string \<rightharpoonup> string) \<Rightarrow> claim list \<Rightarrow> string \<Rightarrow> string
     \<Rightarrow> chain_recommendation" where
  "chain_record S pharmacy_chains claims d ch =
     \<lparr>chain_name = ch, chain_avg_price = mean (chain_prices S pharmacy_chains claims d ch)\<rparr>"

definition recommendations_spec ::
  "string set \<Rightarrow> (string \<rightharpoonup> string) \<Rightarrow> claim list \<Rightarrow> ndc_recommendation list" where
  "recommendations_spec S pharmacy_chains claims =
     map (\<lambda>d. \<lparr>rec_ndc = d,
               rec_chain = take 2 (list_sort chain_avg_price
                 (map (chain_record S pharmacy_chains claims d)
                    (chains_of pharmacy_chains claims d)))\<rparr>)
       (ndcs_of claims)"

text \<open>The claim and the revert of the scenarios, and further records for examples.\<close>

definition scenario_claim :: claim where
  "scenario_claim =
     \<lparr>c_id = Some ''c1'', c_npi = Some ''p1'', c_ndc = Some ''d1'', c_price = Some (Finite 10),
      c_quantity = Some 30, c_timestamp = Some ''t''\<rparr>"

definition scenario_revert :: revert where
  "scenario_revert = \<lparr>r_id = Some ''r1'', r_claim_id = Some ''c1'', r_timestamp = Some ''t''\<rparr>"

definition other_claim :: claim where
  "other_claim =
     \<lparr>c_id = Some ''c2'', c_npi = Some ''p2'', c_ndc = Some ''d1'', c_price = Some (Finite 4),
      c_quantity = Some 5, c_timestamp = Some ''t''\<rparr>"

definition dangling_revert :: revert where
  "dangling_revert = \<lparr>r_id = Some ''r2'', r_claim_id = Some ''c9'', r_timestamp = Some ''t''\<rparr>"

definition third_claim :: claim where
  "third_claim =
     \<lparr>c_id = Some ''c3'', c_npi = Some ''p3'', c_ndc = Some ''d1'', c_price = Some (Finite 7),
      c_quantity = Some 5, c_timestamp = Some ''t''\<rparr>"

definition example_directory :: "string \<rightharpoonup> string" where
  "example_directory = [''p1'' \<mapsto> ''ChainA'', ''p3'' \<mapsto> ''ChainB'']"

section \<open>Lemmas on sequencing, loops and dictionaries\<close>

lemma and_then_Inl [simp]: "and_then (Inl e) k = Inl e"
  by (simp add: and_then_def)

lemma and_then_Inr [simp]: "and_then (Inr x) k = k x"
  by (simp add: and_then_def)

lemma and_then_eq_Inr: "and_then r k = Inr y \<longleftrightarrow> (\<exists>x. r = Inr x \<and> k x = Inr y)"
  by (cases r) simp_all

lemma and_then_eq_Inl: "and_then r k = Inl e \<longleftrightarrow> r = Inl e \<or> (\<exists>x. r = Inr x \<and> k x = Inl e)"
  by (cases r) simp_all

lemma getitem_None [simp]: "getitem k None = Inl (KeyError k)"
  by (simp add: getitem_def)

lemma getitem_Some [simp]: "getitem k (Some x) = Inr x"
  by (simp add: getitem_def)

lemma getitem_eq_Inr: "getitem k v = Inr x \<longleftrightarrow> v = Some x"
  by (cases v) simp_all

lemma dd_apply_fuse: "dd_apply d f k (dd_apply d g k m) = dd_apply d (\<lambda>v. f (g v)) k m"
  by (induction m) auto

lemma map_of_dd_apply:
  "map_of (dd_apply d f k m) k' = (if k' = k then Some (f (dd_get d m k)) else map_of m k')"
  by (induction m) (auto simp: dd_get_def)

lemma dd_get_dd_apply:
  "dd_get d (dd_apply d f k m) k' = (if k' = k then f (dd_get d m k) else dd_get d m k')"
  by (simp add: dd_get_def map_of_dd_apply)

lemma keys_dd_apply:
  "map fst (dd_apply d f k m) = (if k \<in> fst ` set m then map fst m else map fst m @ [k])"
  by (induction m) force+

lemma distinct_keys_dd_apply:
  "distinct (map fst m) \<Longrightarrow> distinct (map fst (dd_apply d f k m))"
  by (simp add: keys_dd_apply)

lemma values_dd_apply:
  assumes "\<forall>kv \<in> set m. P (snd kv)" and "P (f d)" and "\<And>v. P v \<Longrightarrow> P (f v)"
  shows "\<forall>kv \<in> set (dd_apply d f k m). P (snd kv)"
  using assms by (induction m) (fastforce split: if_splits)+

lemma sum_list_dd_apply:
  fixes g :: "'v \<Rightarrow> int"
  assumes "g d = 0" and "\<And>v. g (f v) = g v + n"
  shows "sum_list (map (\<lambda>kv. g (snd kv)) (dd_apply d f k m)) = sum_list (map (\<lambda>kv. g (snd kv)) m) + n"
  using assms by (induction m) auto

lemma metrics_body_account:
  "metrics_body S c m = Inr m' \<longleftrightarrow>
     (\<exists>n d p i. c_npi c = Some n \<and> c_ndc c = Some d \<and> c_price c = Some p \<and> c_id c = Some i \<and>
        m' = dd_apply default_metric (account p (i \<in> S)) (n, d) m)"
proof -
  have acc_False: "\<And>p. (\<lambda>v. v\<lparr>m_fills := m_fills v + 1, m_total_price := fadd (m_total_price v) p\<rparr>)
      = account p False"
    by (rule ext) (simp add: account_def)
  have acc_True: "\<And>p. (\<lambda>v. (account p False v)\<lparr>m_reverted := m_reverted (account p False v) + 1\<rparr>)
      = account p True"
    by (rule ext) (simp add: account_def)
  have two: "\<And>p k. 
      (dd_apply default_metric (\<lambda>m. m\<lparr>m_total_price := fadd (m_total_price m) p\<rparr>) k
        (dd_apply default_metric (\<lambda>m. m\<lparr>m_fills := m_fills m + 1\<rparr>) k m))
     = dd_apply default_metric (account p False) k m"
    by (simp add: dd_apply_fuse acc_False)
  have three: "\<And>p k. dd_apply default_metric (\<lambda>m. m\<lparr>m_reverted := m_reverted m + 1\<rparr>) k
      (dd_apply default_metric (account p False) k m)
     = dd_apply default_metric (account p True) k m"
    by (simp add: dd_apply_fuse acc_True)
  show ?thesis
    by (cases "c_npi c"; cases "c_ndc c"; cases "c_price c"; cases "c_id c")
      (auto simp: metrics_body_def Let_def two three)
qed

lemma metrics_body_complete:
  "(\<exists>m'. metrics_body S c m = Inr m') \<longleftrightarrow> claim_complete c"
  by (auto simp: metrics_body_account claim_complete_def)

lemma for_each_Inr_iff:
  assumes "\<And>x s. (\<exists>s'. body x s = Inr s') \<longleftrightarrow> ok x"
  shows "(\<exists>s'. for_each body xs s = Inr s') \<longleftrightarrow> (\<forall>x \<in> set xs. ok x)"
proof (induction xs arbitrary: s)
  case Nil
  show ?case by simp
next
  case (Cons x xs)
  show ?case
  proof (cases "body x s")
    case (Inl e)
    with assms [of x s] show ?thesis by simp
  next
    case (Inr s1)
    with assms [of x s] Cons.IH [of s1] show ?thesis by simp
  qed
qed

lemma collect_Inr_iff:
  "(\<exists>ys. collect g xs = Inr ys) \<longleftrightarrow> (\<forall>x \<in> set xs. \<exists>y. g x = Inr y)"
proof (induction xs)
  case Nil
  show ?case by simp
next
  case (Cons x xs)
  then show ?case by (cases "g x"; cases "collect g xs") auto
qed

lemma reverted_claims_Inr:
  "reverted_claims reverts = Inr S \<Longrightarrow>
     (\<forall>r \<in> set reverts. revert_complete r) \<and> S = {i. \<exists>r \<in> set reverts. r_claim_id r = Some i}"
proof (induction reverts arbitrary: S)
  case Nil
  then show ?case by (simp add: reverted_claims_def)
next
  case (Cons r rs)
  from Cons.prems obtain i ids where i: "r_claim_id r = Some i"
    and ids: "collect (\<lambda>r. getitem ''claim_id'' (r_claim_id r)) rs = Inr ids" and S: "S = set (i # ids)"
    by (auto simp: reverted_claims_def and_then_eq_Inr getitem_eq_Inr)
  from ids have "reverted_claims rs = Inr (set ids)"
    by (simp add: reverted_claims_def)
  from Cons.IH [OF this] i S show ?case
    by (auto simp: revert_complete_def)
qed

lemma reverted_claims_complete:
  "\<forall>r \<in> set reverts. revert_complete r \<Longrightarrow> \<exists>S. reverted_claims reverts = Inr S"
proof -
  assume "\<forall>r \<in> set reverts. revert_complete r"
  then have "\<forall>r \<in> set reverts. \<exists>y. getitem ''claim_id'' (r_claim_id r) = Inr y"
    by (auto simp: revert_complete_def)
  then obtain ids where "collect (\<lambda>r. getitem ''claim_id'' (r_claim_id r)) reverts = Inr ids"
    using collect_Inr_iff [of "\<lambda>r. getitem ''claim_id'' (r_claim_id r)" reverts] by blast
  then show ?thesis by (simp add: reverted_claims_def)
qed

lemma metrics_loop_sums:
  "for_each (metrics_body S) claims m = Inr m' \<Longrightarrow>
     sum_list (map (\<lambda>kv. m_fills (snd kv)) m') =
       sum_list (map (\<lambda>kv. m_fills (snd kv)) m) + int (length claims) \<and>
     sum_list (map (\<lambda>kv. m_reverted (snd kv)) m') =
       sum_list (map (\<lambda>kv. m_reverted (snd kv)) m)
         + int (length (filter (\<lambda>c. \<exists>i \<in> S. c_id c = Some i) claims))"
proof (induction claims arbitrary: m)
  case Nil
  then show ?case by simp
next
  case (Cons c cs)
  from Cons.prems obtain m1 where m1: "metrics_body S c m = Inr m1"
    and rest: "for_each (metrics_body S) cs m1 = Inr m'"
    by (auto simp: and_then_eq_Inr)
  from m1 obtain n d p i where i: "c_id c = Some i"
    and m1_eq: "m1 = dd_apply default_metric (account p (i \<in> S)) (n, d) m"
    by (auto simp: metrics_body_account)
  have f: "sum_list (map (\<lambda>kv. m_fills (snd kv)) m1) = sum_list (map (\<lambda>kv. m_fills (snd kv)) m) + 1"
    unfolding m1_eq by (rule sum_list_dd_apply) (simp_all add: default_metric_def account_def)
  have r: "sum_list (map (\<lambda>kv. m_reverted (snd kv)) m1) =
      sum_list (map (\<lambda>kv. m_reverted (snd kv)) m) + (if i \<in> S then 1 else 0)"
    unfolding m1_eq by (rule sum_list_dd_apply) (simp_all add: default_metric_def account_def)
  from Cons.IH [OF rest] f r i show ?case by auto
qed

lemma length_filter_ids:
  assumes "distinct (map c_id claims)" and "\<forall>c \<in> set claims. c_id c \<noteq> None"
  shows "length (filter (\<lambda>c. \<exists>i \<in> S. c_id c = Some i) claims) =
         card {i \<in> S. \<exists>c \<in> set claims. c_id c = Some i}"
proof -
  let ?P = "\<lambda>c. \<exists>i \<in> S. c_id c = Some i"
  have "distinct (map c_id (filter ?P claims))"
    using assms(1) by (rule distinct_map_filter)
  then have "card (set (map c_id (filter ?P claims))) = length (map c_id (filter ?P claims))"
    by (rule distinct_card)
  then have "length (filter ?P claims) = card (set (map c_id (filter ?P claims)))"
    by (simp only: length_map)
  also have "set (map c_id (filter ?P claims)) = Some ` {i \<in> S. \<exists>c \<in> set claims. c_id c = Some i}"
    by (fastforce simp: image_iff)
  also have "card \<dots> = card {i \<in> S. \<exists>c \<in> set claims. c_id c = Some i}"
    by (simp add: card_image)
  finally show ?thesis .
qed

lemma for_each_invariant:
  assumes "for_each body xs s = Inr s'" and "I s"
    and "\<And>x s s'. I s \<Longrightarrow> body x s = Inr s' \<Longrightarrow> I s'"
  shows "I s'"
  using assms(1,2)
proof (induction xs arbitrary: s)
  case Nil
  then show ?case by simp
next
  case (Cons x xs)
  from Cons.prems(1) obtain s1 where "body x s = Inr s1" and "for_each body xs s1 = Inr s'"
    by (auto simp: and_then_eq_Inr)
  with Cons.IH [of s1] assms(3) [of s x s1] Cons.prems(2) show ?case by blast
qed

lemma metrics_loop_complete:
  "(\<exists>m'. for_each (metrics_body S) claims m = Inr m') \<longleftrightarrow> (\<forall>c \<in> set claims. claim_complete c)"
  by (rule for_each_Inr_iff) (rule metrics_body_complete)

lemma calculate_metrics_Inr:
  "calculate_metrics claims reverts = Inr records \<longleftrightarrow>
     (\<exists>S m. reverted_claims reverts = Inr S \<and> for_each (metrics_body S) claims [] = Inr m \<and>
        records = map emit_metric m)"
  by (auto simp: calculate_metrics_def and_then_eq_Inr)

lemma fills_emit_metric: "fills (emit_metric kv) = m_fills (snd kv)"
  by (cases kv) (auto simp: emit_metric_def)

lemma reverted_emit_metric: "reverted (emit_metric kv) = m_reverted (snd kv)"
  by (cases kv) (auto simp: emit_metric_def)

section \<open>Claims on calculate\_metrics\<close>

text \<open>
  C2. For claims and reverts that carry the keys the function reads, \<open>calculate_metrics\<close>
  returns records whose \<open>fills\<close> add up to the number of input claims; when the claim ids are
  unique, their \<open>reverted\<close> counters add up to the number of distinct reverted claim ids that
  are the id of some input claim.
\<close>

theorem calculate_metrics_sums:
  assumes "\<forall>c \<in> set claims. claim_complete c" and "\<forall>r \<in> set reverts. revert_complete r"
  shows "\<exists>records. calculate_metrics claims reverts = Inr records \<and>
           sum_list (map fills records) = int (length claims) \<and>
           (distinct (map c_id claims) \<longrightarrow>
              sum_list (map reverted records) =
                int (card {i. (\<exists>r \<in> set reverts. r_claim_id r = Some i) \<and>
                              (\<exists>c \<in> set claims. c_id c = Some i)}))"
proof -
  from assms(2) obtain S where S: "reverted_claims reverts = Inr S"
    using reverted_claims_complete by blast
  then have S_eq: "S = {i. \<exists>r \<in> set reverts. r_claim_id r = Some i}"
    using reverted_claims_Inr by blast
  from assms(1) obtain m where m: "for_each (metrics_body S) claims [] = Inr m"
    using metrics_loop_complete [of S claims "[]"] by blast
  let ?records = "map emit_metric m"
  have res: "calculate_metrics claims reverts = Inr ?records"
    using S m by (simp add: calculate_metrics_def)
  have sums: "sum_list (map (\<lambda>kv. m_fills (snd kv)) m) = int (length claims)"
    "sum_list (map (\<lambda>kv. m_reverted (snd kv)) m) =
       int (length (filter (\<lambda>c. \<exists>i \<in> S. c_id c = Some i) claims))"
    using metrics_loop_sums [OF m] by simp_all
  have f: "sum_list (map fills ?records) = int (length claims)"
    using sums(1) by (simp add: comp_def fills_emit_metric)
  have r: "sum_list (map reverted ?records) =
      int (card {i. (\<exists>r \<in> set reverts. r_claim_id r = Some i) \<and> (\<exists>c \<in> set claims. c_id c = Some i)})"
    if d: "distinct (map c_id claims)"
  proof -
    have "\<forall>c \<in> set claims. c_id c \<noteq> None"
      using assms(1) by (simp add: claim_complete_def)
    from length_filter_ids [OF d this, of S]
    have "length (filter (\<lambda>c. \<exists>i \<in> S. c_id c = Some i) claims) =
        card {i \<in> S. \<exists>c \<in> set claims. c_id c = Some i}" .
    also have "{i \<in> S. \<exists>c \<in> set claims. c_id c = Some i} =
        {i. (\<exists>r \<in> set reverts. r_claim_id r = Some i) \<and> (\<exists>c \<in> set claims. c_id c = Some i)}"
      unfolding S_eq by blast
    finally show ?thesis
      using sums(2) by (simp add: comp_def reverted_emit_metric)
  qed
  from res f r show ?thesis by blast
qed

theorem calculate_metrics_sums_witness:
  "claim_complete scenario_claim \<and> claim_complete other_claim \<and>
   revert_complete scenario_revert \<and> revert_complete dangling_revert \<and>
   distinct (map c_id [scenario_claim, other_claim]) \<and>
   (\<exists>records.
      calculate_metrics [scenario_claim, other_claim]
        [scenario_revert, dangling_revert, scenario_revert] = Inr records \<and>
      sum_list (map fills records) = 2 \<and> sum_list (map reverted records) = 1)"
proof -
  let ?claims = "[scenario_claim, other_claim]"
  let ?reverts = "[scenario_revert, dangling_revert, scenario_revert]"
  have c: "\<forall>c \<in> set ?claims. claim_complete c"
    by (simp add: claim_complete_def scenario_claim_def other_claim_def)
  have r: "\<forall>r \<in> set ?reverts. revert_complete r"
    by (simp add: revert_complete_def scenario_revert_def dangling_revert_def)
  have d: "distinct (map c_id ?claims)"
    by (simp add: scenario_claim_def other_claim_def)
  have ids: "{i. (\<exists>r \<in> set ?reverts. r_claim_id r = Some i) \<and> (\<exists>c \<in> set ?claims. c_id c = Some i)}
      = {''c1''}"
    by (auto simp: scenario_claim_def other_claim_def scenario_revert_def dangling_revert_def)
  from calculate_metrics_sums [OF c r] d ids
  have "\<exists>records. calculate_metrics ?claims ?reverts = Inr records \<and>
      sum_list (map fills records) = 2 \<and> sum_list (map reverted records) = 1"
    by simp
  with c r d show ?thesis by simp
qed

text \<open>
  C8. Every record returned by \<open>calculate_metrics\<close> has \<open>fills \<ge> 1\<close> and
  \<open>0 \<le> reverted \<le> fills\<close>; so its \<open>fills\<close> is not zero, the guard of the average takes
  the division branch and never the branch that yields 0.
\<close>

theorem calculate_metrics_bounds:
  assumes "calculate_metrics claims reverts = Inr records"
  shows "\<forall>r \<in> set records. 1 \<le> fills r \<and> 0 \<le> reverted r \<and> reverted r \<le> fills r \<and>
           fills r \<noteq> 0 \<and> avg_price r = fdiv (total_price r) (fills r)"
proof -
  let ?P = "\<lambda>v. 1 \<le> m_fills v \<and> 0 \<le> m_reverted v \<and> m_reverted v \<le> m_fills v"
  from assms obtain S m where m: "for_each (metrics_body S) claims [] = Inr m"
    and records: "records = map emit_metric m"
    by (auto simp: calculate_metrics_Inr)
  have step: "\<forall>kv \<in> set s'. ?P (snd kv)"
    if "\<forall>kv \<in> set s. ?P (snd kv)" and "metrics_body S c s = Inr s'" for c s s'
  proof -
    from that(2) obtain n d p i where s': "s' = dd_apply default_metric (account p (i \<in> S)) (n, d) s"
      by (auto simp: metrics_body_account)
    show ?thesis unfolding s'
      by (rule values_dd_apply [OF that(1)]) (simp_all add: default_metric_def account_def)
  qed
  have inv: "\<forall>kv \<in> set m. ?P (snd kv)"
    by (rule for_each_invariant [OF m, where I = "\<lambda>s. \<forall>kv \<in> set s. ?P (snd kv)"])
      (simp, rule step)
  show ?thesis
  proof
    fix r assume "r \<in> set records"
    then obtain k v where kv: "(k, v) \<in> set m" and r: "r = emit_metric (k, v)"
      unfolding records by auto
    from inv kv have "?P v" by auto
    then show "1 \<le> fills r \<and> 0 \<le> reverted r \<and> reverted r \<le> fills r \<and>
           fills r \<noteq> 0 \<and> avg_price r = fdiv (total_price r) (fills r)"
      unfolding r by (cases k) (auto simp: emit_metric_def)
  qed
qed

theorem calculate_metrics_bounds_witness:
  "calculate_metrics [scenario_claim, other_claim, scenario_claim] [scenario_revert] =
     Inr [\<lparr>npi = ''p1'', ndc = ''d1'', fills = 2, reverted = 2, avg_price = Finite 10, total_price = Finite 20\<rparr>,
          \<lparr>npi = ''p2'', ndc = ''d1'', fills = 1, reverted = 0, avg_price = Finite 4, total_price = Finite 4\<rparr>] \<and>
   (\<exists>r1 r2. calculate_metrics [scenario_claim, other_claim, scenario_claim] [scenario_revert] =
      Inr [r1, r2] \<and>
      1 \<le> fills r1 \<and> 0 \<le> reverted r1 \<and> reverted r1 \<le> fills r1 \<and> fills r1 \<noteq> 0 \<and>
      1 \<le> fills r2 \<and> 0 \<le> reverted r2 \<and> reverted r2 \<le> fills r2 \<and> fills r2 \<noteq> 0)"
proof -
  have run: "calculate_metrics [scenario_claim, other_claim, scenario_claim] [scenario_revert] =
     Inr [\<lparr>npi = ''p1'', ndc = ''d1'', fills = 2, reverted = 2, avg_price = Finite 10, total_price = Finite 20\<rparr>,
          \<lparr>npi = ''p2'', ndc = ''d1'', fills = 1, reverted = 0, avg_price = Finite 4, total_price = Finite 4\<rparr>]"
    by (simp add: calculate_metrics_def reverted_claims_def metrics_body_def default_metric_def
        emit_metric_def scenario_claim_def other_claim_def scenario_revert_def)
  from calculate_metrics_bounds [OF run] run show ?thesis by simp
qed

lemma map_dd_apply:
  assumes "\<And>v. h (f v) = g (h v)"
  shows "map (\<lambda>kv. (fst kv, h (snd kv))) (dd_apply d f k m) =
         dd_apply (h d) g k (map (\<lambda>kv. (fst kv, h (snd kv))) m)"
  using assms by (induction m) auto

lemma metrics_loop_frame:
  "for_each (metrics_body S) claims m = Inr m' \<Longrightarrow>
     for_each (metrics_body {}) claims (map (\<lambda>kv. (fst kv, without_reverted (snd kv))) m) =
       Inr (map (\<lambda>kv. (fst kv, without_reverted (snd kv))) m')"
proof (induction claims arbitrary: m)
  case Nil
  then show ?case by simp
next
  case (Cons c cs)
  let ?strip = "map (\<lambda>kv. (fst kv, without_reverted (snd kv)))"
  from Cons.prems obtain m1 where m1: "metrics_body S c m = Inr m1"
    and rest: "for_each (metrics_body S) cs m1 = Inr m'"
    by (auto simp: and_then_eq_Inr)
  from m1 obtain n d p i where c: "c_npi c = Some n" "c_ndc c = Some d" "c_price c = Some p"
      "c_id c = Some i"
    and m1_eq: "m1 = dd_apply default_metric (account p (i \<in> S)) (n, d) m"
    by (auto simp: metrics_body_account)
  have "?strip m1 = dd_apply (without_reverted default_metric) (account p False) (n, d) (?strip m)"
    unfolding m1_eq by (rule map_dd_apply) (simp add: without_reverted_def account_def)
  then have "?strip m1 = dd_apply default_metric (account p (i \<in> {})) (n, d) (?strip m)"
    by (simp add: without_reverted_def default_metric_def)
  with c have "metrics_body {} c (?strip m) = Inr (?strip m1)"
    unfolding metrics_body_account by blast
  with Cons.IH [OF rest] show ?case by simp
qed

lemma emit_without_reverted:
  "emit_metric (fst kv, without_reverted (snd kv)) = (emit_metric kv)\<lparr>reverted := 0\<rparr>"
  by (cases kv) (auto simp: emit_metric_def without_reverted_def)

text \<open>
  C5. Reverts change only the \<open>reverted\<close> field: if \<open>calculate_metrics\<close> returns records for
  some revert list, then for the empty revert list it returns the same records, in the same
  order, with \<open>reverted\<close> reset to 0 and \<open>npi\<close>, \<open>ndc\<close>, \<open>fills\<close>, \<open>total_price\<close> and
  \<open>avg_price\<close> unchanged. In the scenario, the claim c1 of price 10 with a revert of c1 gives
  \<open>reverted = 1\<close>, \<open>total_price = Finite 10\<close> and \<open>avg_price = Finite 10\<close>.
\<close>

theorem reverts_change_only_reverted:
  "(calculate_metrics claims reverts = Inr records \<longrightarrow>
      calculate_metrics claims [] = Inr (map (\<lambda>r. r\<lparr>reverted := 0\<rparr>) records)) \<and>
   calculate_metrics
     [\<lparr>c_id = Some ''c1'', c_npi = Some ''p1'', c_ndc = Some ''d1'', c_price = Some (Finite 10),
       c_quantity = Some 30, c_timestamp = Some ''t''\<rparr>]
     [\<lparr>r_id = Some ''r1'', r_claim_id = Some ''c1'', r_timestamp = Some ''t''\<rparr>] =
   Inr [\<lparr>npi = ''p1'', ndc = ''d1'', fills = 1, reverted = 1, avg_price = Finite 10, total_price = Finite 10\<rparr>]"
proof (intro conjI impI)
  assume "calculate_metrics claims reverts = Inr records"
  then obtain S m where m: "for_each (metrics_body S) claims [] = Inr m"
    and records: "records = map emit_metric m"
    by (auto simp: calculate_metrics_Inr)
  have empty: "reverted_claims [] = Inr {}"
    by (simp add: reverted_claims_def)
  from metrics_loop_frame [OF m]
  have "for_each (metrics_body {}) claims [] =
      Inr (map (\<lambda>kv. (fst kv, without_reverted (snd kv))) m)"
    by simp
  with empty show "calculate_metrics claims [] = Inr (map (\<lambda>r. r\<lparr>reverted := 0\<rparr>) records)"
    unfolding records by (simp add: calculate_metrics_def comp_def emit_without_reverted)
next
  show "calculate_metrics
     [\<lparr>c_id = Some ''c1'', c_npi = Some ''p1'', c_ndc = Some ''d1'', c_price = Some (Finite 10),
       c_quantity = Some 30, c_timestamp = Some ''t''\<rparr>]
     [\<lparr>r_id = Some ''r1'', r_claim_id = Some ''c1'', r_timestamp = Some ''t''\<rparr>] =
   Inr [\<lparr>npi = ''p1'', ndc = ''d1'', fills = 1, reverted = 1, avg_price = Finite 10, total_price = Finite 10\<rparr>]"
    by (simp add: calculate_metrics_def reverted_claims_def metrics_body_def default_metric_def
        emit_metric_def)
qed

theorem reverts_change_only_reverted_witness:
  "calculate_metrics [scenario_claim, other_claim] [scenario_revert] =
     Inr [\<lparr>npi = ''p1'', ndc = ''d1'', fills = 1, reverted = 1, avg_price = Finite 10, total_price = Finite 10\<rparr>,
          \<lparr>npi = ''p2'', ndc = ''d1'', fills = 1, reverted = 0, avg_price = Finite 4, total_price = Finite 4\<rparr>] \<and>
   calculate_metrics [scenario_claim, other_claim] [] =
     Inr [\<lparr>npi = ''p1'', ndc = ''d1'', fills = 1, reverted = 0, avg_price = Finite 10, total_price = Finite 10\<rparr>,
          \<lparr>npi = ''p2'', ndc = ''d1'', fills = 1, reverted = 0, avg_price = Finite 4, total_price = Finite 4\<rparr>]"
proof -
  have run: "calculate_metrics [scenario_claim, other_claim] [scenario_revert] =
     Inr [\<lparr>npi = ''p1'', ndc = ''d1'', fills = 1, reverted = 1, avg_price = Finite 10, total_price = Finite 10\<rparr>,
          \<lparr>npi = ''p2'', ndc = ''d1'', fills = 1, reverted = 0, avg_price = Finite 4, total_price = Finite 4\<rparr>]"
    by (simp add: calculate_metrics_def reverted_claims_def metrics_body_def default_metric_def
        emit_metric_def scenario_claim_def other_claim_def scenario_revert_def)
  from reverts_change_only_reverted [THEN conjunct1, rule_format, OF run] run
  show ?thesis by simp
qed

section \<open>Claims on recommendations\<close>

lemma recommend_body_Inr:
  "recommend_body S dir c m = Inr m' \<longleftrightarrow>
     (\<exists>n d p i. c_npi c = Some n \<and> c_ndc c = Some d \<and> c_price c = Some p \<and> c_id c = Some i \<and>
        m' = (if i \<in> S then append_price d (chain_of dir n) (fneg p) (append_price d (chain_of dir n) p m)
              else append_price d (chain_of dir n) p m))"
  by (cases "c_npi c"; cases "c_ndc c"; cases "c_price c"; cases "c_id c")
    (auto simp: recommend_body_def Let_def)

lemma recommend_body_complete:
  "(\<exists>m'. recommend_body S dir c m = Inr m') \<longleftrightarrow> claim_complete c"
  by (cases "c_npi c"; cases "c_ndc c"; cases "c_price c"; cases "c_id c")
    (simp_all add: recommend_body_def Let_def claim_complete_def)

lemma recommend_loop_complete:
  "(\<exists>m'. for_each (recommend_body S dir) claims m = Inr m') \<longleftrightarrow> (\<forall>c \<in> set claims. claim_complete c)"
  by (rule for_each_Inr_iff) (rule recommend_body_complete)

lemma dd_get_append_price:
  "dd_get [] (dd_get [] (append_price d ch x m) d') ch' =
     (if d' = d \<and> ch' = ch then dd_get [] (dd_get [] m d) ch @ [x]
      else dd_get [] (dd_get [] m d') ch')"
  by (simp add: append_price_def dd_get_dd_apply)

lemma recommend_loop_prices:
  "for_each (recommend_body S dir) claims m = Inr m' \<Longrightarrow>
     dd_get [] (dd_get [] m' d) ch = dd_get [] (dd_get [] m d) ch @ chain_prices S dir claims d ch"
proof (induction claims arbitrary: m)
  case Nil
  then show ?case by (simp add: chain_prices_def)
next
  case (Cons c cs)
  from Cons.prems obtain m1 where m1: "recommend_body S dir c m = Inr m1"
    and rest: "for_each (recommend_body S dir) cs m1 = Inr m'"
    by (auto simp: and_then_eq_Inr)
  from m1 have "dd_get [] (dd_get [] m1 d) ch =
      dd_get [] (dd_get [] m d) ch @ (if sold_by dir d ch c then price_samples S c else [])"
    by (auto simp: recommend_body_Inr dd_get_append_price sold_by_def price_samples_def)
  with Cons.IH [OF rest] show ?case
    by (simp add: chain_prices_def)
qed

lemma nonempty_append_price:
  assumes "\<forall>kv \<in> set m. nonempty_lists (snd kv)"
  shows "\<forall>kv \<in> set (append_price d ch x m). nonempty_lists (snd kv)"
  unfolding append_price_def
proof (rule values_dd_apply [OF assms])
  show "nonempty_lists (dd_apply [] (\<lambda>prices. prices @ [x]) ch [])"
    by (simp add: nonempty_lists_def)
next
  fix v :: "(string \<times> float64 list) list"
  assume "nonempty_lists v"
  then have "\<forall>cv \<in> set v. snd cv \<noteq> []"
    by (simp add: nonempty_lists_def)
  then have "\<forall>cv \<in> set (dd_apply [] (\<lambda>prices. prices @ [x]) ch v). snd cv \<noteq> []"
    by (rule values_dd_apply) simp_all
  then show "nonempty_lists (dd_apply [] (\<lambda>prices. prices @ [x]) ch v)"
    by (simp add: nonempty_lists_def)
qed

lemma distinct_append_price:
  assumes "distinct (map fst m)" and "\<forall>kv \<in> set m. distinct (map fst (snd kv))"
  shows "distinct (map fst (append_price d ch x m)) \<and>
         (\<forall>kv \<in> set (append_price d ch x m). distinct (map fst (snd kv)))"
proof
  show "distinct (map fst (append_price d ch x m))"
    unfolding append_price_def using assms(1) by (rule distinct_keys_dd_apply)
  show "\<forall>kv \<in> set (append_price d ch x m). distinct (map fst (snd kv))"
    unfolding append_price_def
    by (rule values_dd_apply [OF assms(2)]) (simp_all add: distinct_keys_dd_apply)
qed

lemma well_keyed_append_price: "well_keyed m \<Longrightarrow> well_keyed (append_price d ch x m)"
  using distinct_append_price [of m d ch x] nonempty_append_price [of m d ch x]
  by (auto simp: well_keyed_def)

lemma recommend_loop_well_keyed:
  assumes "for_each (recommend_body S dir) claims [] = Inr m"
  shows "well_keyed m"
proof (rule for_each_invariant [OF assms, where I = well_keyed])
  show "well_keyed []" by (simp add: well_keyed_def)
next
  fix c s s'
  assume "well_keyed s" and "recommend_body S dir c s = Inr s'"
  then show "well_keyed s'"
    by (auto simp: recommend_body_Inr well_keyed_append_price)
qed

lemma dd_get_entry: "distinct (map fst m) \<Longrightarrow> (k, v) \<in> set m \<Longrightarrow> dd_get d m k = v"
  by (simp add: dd_get_def)

lemma collect_Inr_member:
  "collect g xs = Inr ys \<Longrightarrow> y \<in> set ys \<Longrightarrow> \<exists>x \<in> set xs. g x = Inr y"
proof (induction xs arbitrary: ys)
  case Nil
  then show ?case by simp
next
  case (Cons x xs)
  from Cons.prems(1) obtain z zs where "g x = Inr z" "collect g xs = Inr zs" "ys = z # zs"
    by (auto simp: and_then_eq_Inr)
  with Cons.IH [of zs] Cons.prems(2) show ?case by auto
qed

lemma collect_Inl_member:
  "collect g xs = Inl e \<Longrightarrow> \<exists>x \<in> set xs. g x = Inl e"
proof (induction xs)
  case Nil
  then show ?case by simp
next
  case (Cons x xs)
  then show ?case by (cases "g x"; cases "collect g xs") auto
qed

lemma for_each_Inl_member:
  "for_each body xs s = Inl e \<Longrightarrow> \<exists>x \<in> set xs. \<exists>s0. body x s0 = Inl e"
proof (induction xs arbitrary: s)
  case Nil
  then show ?case by simp
next
  case (Cons x xs)
  then show ?case by (cases "body x s") auto
qed

lemma set_insert_by_key: "set (insert_by_key key x ys) = insert x (set ys)"
  by (induction ys) auto

lemma set_stable_sort: "set (stable_sort key xs) = set xs"
  by (induction xs) (simp_all add: stable_sort_def set_insert_by_key)

lemma set_take_drop: "set (take n xs) \<union> set (drop n xs) = set xs"
proof -
  have "set (take n xs @ drop n xs) = set xs" by simp
  then show ?thesis by (simp only: set_append)
qed

lemma set_binary_insert: "set (binary_insert key xs pivot) = insert pivot (set xs)"
  using set_take_drop [of "bisect key pivot xs 0 (length xs)" xs]
  by (auto simp: binary_insert_def Let_def)

lemma set_binarysort: "set (binarysort key run rest) = set run \<union> set rest"
  unfolding binarysort_def
  by (induction rest arbitrary: run) (auto simp: set_binary_insert)

lemma set_short_sort: "set (short_sort key xs) = set xs"
proof -
  obtain n descending where "count_run key xs = (n, descending)"
    by (cases "count_run key xs")
  then show ?thesis
    using set_take_drop [of n xs] by (simp add: short_sort_def set_binarysort)
qed

lemma set_list_sort: "set (list_sort key xs) = set xs"
  by (simp add: list_sort_def set_stable_sort set_short_sort)

lemmas sort_eval = list_sort_def stable_sort_def short_sort_def binarysort_def binary_insert_def
  bisect.simps fsum_def

lemma chain_average_Inr:
  "chain_average cv = Inr cr \<longleftrightarrow>
     snd cv \<noteq> [] \<and> cr = \<lparr>chain_name = fst cv,
        chain_avg_price = fdiv (fsum (snd cv)) (int (length (snd cv)))\<rparr>"
  by (cases cv) (auto simp: chain_average_def)

lemma ndc_entry_Inr:
  "ndc_entry kv = Inr e \<longleftrightarrow>
     (\<exists>crs. collect chain_average (snd kv) = Inr crs \<and>
        e = \<lparr>rec_ndc = fst kv, rec_chain = take 2 (list_sort chain_avg_price crs)\<rparr>)"
  by (cases kv) (auto simp: ndc_entry_def and_then_eq_Inr)

lemma recommendations_Inr:
  "recommendations claims reverts dir = Inr out \<longleftrightarrow>
     (\<exists>S m. reverted_claims reverts = Inr S \<and> for_each (recommend_body S dir) claims [] = Inr m \<and>
        collect ndc_entry m = Inr out)"
  by (auto simp: recommendations_def and_then_eq_Inr)

lemma recommendations_entry:
  assumes "recommendations claims reverts dir = Inr out" and "e \<in> set out" and "cr \<in> set (rec_chain e)"
  shows "\<exists>S m inner ps. reverted_claims reverts = Inr S \<and>
      for_each (recommend_body S dir) claims [] = Inr m \<and>
      (rec_ndc e, inner) \<in> set m \<and> (chain_name cr, ps) \<in> set inner \<and> ps \<noteq> [] \<and>
      chain_avg_price cr = fdiv (fsum ps) (int (length ps))"
proof -
  from assms(1) obtain S m where S: "reverted_claims reverts = Inr S"
    and m: "for_each (recommend_body S dir) claims [] = Inr m"
    and out: "collect ndc_entry m = Inr out"
    by (auto simp: recommendations_Inr)
  from collect_Inr_member [OF out assms(2)] obtain kv where kv: "kv \<in> set m" "ndc_entry kv = Inr e"
    by blast
  then obtain crs where crs: "collect chain_average (snd kv) = Inr crs"
    and e: "e = \<lparr>rec_ndc = fst kv, rec_chain = take 2 (list_sort chain_avg_price crs)\<rparr>"
    by (auto simp: ndc_entry_Inr)
  from assms(3) e have "cr \<in> set crs"
    by (auto dest: in_set_takeD simp: set_list_sort)
  from collect_Inr_member [OF crs this] obtain cv where cv: "cv \<in> set (snd kv)"
    "chain_average cv = Inr cr"
    by blast
  from cv(2) have "snd cv \<noteq> []" "chain_name cr = fst cv"
    "chain_avg_price cr = fdiv (fsum (snd cv)) (int (length (snd cv)))"
    by (simp_all add: chain_average_Inr)
  with S m kv(1) cv(1) e show ?thesis
    by (intro exI [of _ S] exI [of _ m] exI [of _ "snd kv"] exI [of _ "snd cv"]) simp
qed

lemma recommendations_average:
  assumes "recommendations claims reverts dir = Inr out"
  shows "\<forall>e \<in> set out. \<forall>cr \<in> set (rec_chain e).
           chain_prices {i. \<exists>r \<in> set reverts. r_claim_id r = Some i} dir claims
             (rec_ndc e) (chain_name cr) \<noteq> [] \<and>
           chain_avg_price cr =
             fdiv (fsum (chain_prices {i. \<exists>r \<in> set reverts. r_claim_id r = Some i} dir claims
               (rec_ndc e) (chain_name cr)))
             (int (length (chain_prices {i. \<exists>r \<in> set reverts. r_claim_id r = Some i} dir claims
               (rec_ndc e) (chain_name cr))))"
proof (intro ballI)
  fix e cr
  assume "e \<in> set out" and "cr \<in> set (rec_chain e)"
  from recommendations_entry [OF assms this] obtain S m inner ps
    where S: "reverted_claims reverts = Inr S"
      and m: "for_each (recommend_body S dir) claims [] = Inr m"
      and inner: "(rec_ndc e, inner) \<in> set m" and ps: "(chain_name cr, ps) \<in> set inner"
      and avg: "ps \<noteq> []" "chain_avg_price cr = fdiv (fsum ps) (int (length ps))"
    by blast
  from S have S_eq: "S = {i. \<exists>r \<in> set reverts. r_claim_id r = Some i}"
    using reverted_claims_Inr by blast
  from recommend_loop_well_keyed [OF m] inner
  have "dd_get [] m (rec_ndc e) = inner" "distinct (map fst inner)"
    by (auto simp: well_keyed_def dd_get_entry)
  with ps have "dd_get [] (dd_get [] m (rec_ndc e)) (chain_name cr) = ps"
    by (simp add: dd_get_entry)
  with recommend_loop_prices [OF m, of "rec_ndc e" "chain_name cr"]
  have "ps = chain_prices S dir claims (rec_ndc e) (chain_name cr)"
    by (simp add: dd_get_def)
  with avg S_eq show "chain_prices {i. \<exists>r \<in> set reverts. r_claim_id r = Some i} dir claims
             (rec_ndc e) (chain_name cr) \<noteq> [] \<and>
           chain_avg_price cr =
             fdiv (fsum (chain_prices {i. \<exists>r \<in> set reverts. r_claim_id r = Some i} dir claims
               (rec_ndc e) (chain_name cr)))
             (int (length (chain_prices {i. \<exists>r \<in> set reverts. r_claim_id r = Some i} dir claims
               (rec_ndc e) (chain_name cr))))"
    by simp
qed

lemma reverted_claims_Inl: "reverted_claims reverts = Inl e \<Longrightarrow> e = KeyError ''claim_id''"
proof -
  assume "reverted_claims reverts = Inl e"
  then have "collect (\<lambda>r. getitem ''claim_id'' (r_claim_id r)) reverts = Inl e"
    by (auto simp: reverted_claims_def and_then_eq_Inl)
  from collect_Inl_member [OF this] obtain r :: revert
    where "getitem ''claim_id'' (r_claim_id r) = Inl e"
    by blast
  then show ?thesis by (cases "r_claim_id r") simp_all
qed

lemma recommend_body_Inl: "recommend_body S dir c m = Inl e \<Longrightarrow> \<exists>k. e = KeyError k"
  by (cases "c_npi c"; cases "c_ndc c"; cases "c_price c"; cases "c_id c")
    (auto simp: recommend_body_def Let_def split: if_splits)

lemma collect_ndc_entry_well_keyed:
  assumes "well_keyed m"
  shows "\<exists>out. collect ndc_entry m = Inr out"
proof -
  have "\<exists>e. ndc_entry kv = Inr e" if "kv \<in> set m" for kv
  proof -
    from assms that have "\<forall>cv \<in> set (snd kv). snd cv \<noteq> []"
      by (auto simp: well_keyed_def nonempty_lists_def)
    then have "\<forall>cv \<in> set (snd kv). \<exists>cr. chain_average cv = Inr cr"
      by (simp add: chain_average_Inr)
    then obtain crs where "collect chain_average (snd kv) = Inr crs"
      using collect_Inr_iff [of chain_average "snd kv"] by blast
    then show ?thesis by (simp add: ndc_entry_Inr)
  qed
  then show ?thesis
    using collect_Inr_iff [of ndc_entry m] by blast
qed

text \<open>
  C10. \<open>recommendations\<close> never fails with a division by zero, whatever the claims, the reverts
  and the directory: every price list that the averaging loop reaches is non-empty. When the
  claims and the reverts carry the keys the function reads, it returns a result.
\<close>

theorem recommendations_no_division_by_zero:
  "recommendations claims reverts dir \<noteq> Inl ZeroDivisionError \<and>
   ((\<forall>c \<in> set claims. claim_complete c) \<and> (\<forall>r \<in> set reverts. revert_complete r) \<longrightarrow>
      (\<exists>out. recommendations claims reverts dir = Inr out))"
proof (intro conjI impI)
  show "recommendations claims reverts dir \<noteq> Inl ZeroDivisionError"
  proof
    assume err: "recommendations claims reverts dir = Inl ZeroDivisionError"
    show False
    proof (cases "reverted_claims reverts")
      case (Inl e)
      with err reverted_claims_Inl [OF Inl] show False
        by (simp add: recommendations_def)
    next
      case (Inr S)
      show False
      proof (cases "for_each (recommend_body S dir) claims []")
        case (Inl e)
        with err Inr have "for_each (recommend_body S dir) claims [] = Inl ZeroDivisionError"
          by (simp add: recommendations_def)
        from for_each_Inl_member [OF this] recommend_body_Inl show False
          by blast
      next
        case m: (Inr m)
        from collect_ndc_entry_well_keyed [OF recommend_loop_well_keyed [OF m]]
        show False using err Inr m by (auto simp: recommendations_def)
      qed
    qed
  qed
next
  assume ok: "(\<forall>c \<in> set claims. claim_complete c) \<and> (\<forall>r \<in> set reverts. revert_complete r)"
  then obtain S where S: "reverted_claims reverts = Inr S"
    using reverted_claims_complete by blast
  from ok obtain m where m: "for_each (recommend_body S dir) claims [] = Inr m"
    using recommend_loop_complete [of S dir claims "[]"] by blast
  from collect_ndc_entry_well_keyed [OF recommend_loop_well_keyed [OF m]] S m
  show "\<exists>out. recommendations claims reverts dir = Inr out"
    by (simp add: recommendations_def)
qed

theorem recommendations_no_division_by_zero_witness:
  "claim_complete scenario_claim \<and> claim_complete other_claim \<and> revert_complete scenario_revert \<and>
   recommendations [scenario_claim, other_claim] [scenario_revert] example_directory
     \<noteq> Inl ZeroDivisionError \<and>
   (\<exists>out. recommendations [scenario_claim, other_claim] [scenario_revert] example_directory
      = Inr out)"
proof -
  have c: "\<forall>c \<in> set [scenario_claim, other_claim]. claim_complete c"
    by (simp add: claim_complete_def scenario_claim_def other_claim_def)
  have r: "\<forall>r \<in> set [scenario_revert]. revert_complete r"
    by (simp add: revert_complete_def scenario_revert_def)
  from recommendations_no_division_by_zero
    [of "[scenario_claim, other_claim]" "[scenario_revert]" example_directory] c r
  show ?thesis by simp
qed

text \<open>
  C1. In \<open>recommendations\<close> a claim whose id is in the reversal set puts its price and then its
  negated price on the price list of its drug and resolved chain (\<open>price_samples\<close>), a claim
  that is not reverted only its price; the list that the loop leaves for a drug and a chain is
  \<open>chain_prices\<close>, and the average of every chain in the output is the sum of that list
  divided by its length. In the scenario (claim c1 of price 10 at p1, directory p1 to ChainA,
  one revert of c1) the recommendation for d1 is ChainA with average (10 + (-10)) / 2 = 0.
\<close>

theorem recommendations_netting:
  "(for_each (recommend_body S dir) claims [] = Inr m \<longrightarrow>
      dd_get [] (dd_get [] m d) ch = chain_prices S dir claims d ch) \<and>
   (recommendations claims reverts dir = Inr out \<longrightarrow>
      (\<forall>e \<in> set out. \<forall>cr \<in> set (rec_chain e).
         chain_prices {i. \<exists>r \<in> set reverts. r_claim_id r = Some i} dir claims
           (rec_ndc e) (chain_name cr) \<noteq> [] \<and>
         chain_avg_price cr =
           fdiv (fsum (chain_prices {i. \<exists>r \<in> set reverts. r_claim_id r = Some i} dir claims
             (rec_ndc e) (chain_name cr)))
           (int (length (chain_prices {i. \<exists>r \<in> set reverts. r_claim_id r = Some i} dir claims
             (rec_ndc e) (chain_name cr)))))) \<and>
   price_samples {''c1''} scenario_claim = [Finite 10, Finite (- 10)] \<and>
   recommendations [scenario_claim] [scenario_revert] [''p1'' \<mapsto> ''ChainA''] =
     Inr [\<lparr>rec_ndc = ''d1'',
           rec_chain = [\<lparr>chain_name = ''ChainA'', chain_avg_price = Finite 0\<rparr>]\<rparr>]"
proof (intro conjI impI)
  assume "for_each (recommend_body S dir) claims [] = Inr m"
  from recommend_loop_prices [OF this, of d ch]
  show "dd_get [] (dd_get [] m d) ch = chain_prices S dir claims d ch"
    by (simp add: dd_get_def)
next
  assume "recommendations claims reverts dir = Inr out"
  then show "\<forall>e \<in> set out. \<forall>cr \<in> set (rec_chain e).
         chain_prices {i. \<exists>r \<in> set reverts. r_claim_id r = Some i} dir claims
           (rec_ndc e) (chain_name cr) \<noteq> [] \<and>
         chain_avg_price cr =
           fdiv (fsum (chain_prices {i. \<exists>r \<in> set reverts. r_claim_id r = Some i} dir claims
             (rec_ndc e) (chain_name cr)))
           (int (length (chain_prices {i. \<exists>r \<in> set reverts. r_claim_id r = Some i} dir claims
             (rec_ndc e) (chain_name cr))))"
    by (rule recommendations_average)
next
  show "price_samples {''c1''} scenario_claim = [Finite 10, Finite (- 10)]"
    by (simp add: price_samples_def scenario_claim_def)
next
  show "recommendations [scenario_claim] [scenario_revert] [''p1'' \<mapsto> ''ChainA''] =
     Inr [\<lparr>rec_ndc = ''d1'',
           rec_chain = [\<lparr>chain_name = ''ChainA'', chain_avg_price = Finite 0\<rparr>]\<rparr>]"
    by (simp add: recommendations_def reverted_claims_def recommend_body_def append_price_def
        chain_of_def ndc_entry_def chain_average_def sort_eval scenario_claim_def scenario_revert_def)
qed

theorem recommendations_netting_witness:
  "recommendations [scenario_claim, other_claim] [scenario_revert] example_directory =
     Inr [\<lparr>rec_ndc = ''d1'',
           rec_chain = [\<lparr>chain_name = ''ChainA'', chain_avg_price = Finite 0\<rparr>,
                        \<lparr>chain_name = ''Unknown'', chain_avg_price = Finite 4\<rparr>]\<rparr>] \<and>
   chain_prices {i. \<exists>r \<in> set [scenario_revert]. r_claim_id r = Some i} example_directory
     [scenario_claim, other_claim] ''d1'' ''ChainA'' = [Finite 10, Finite (- 10)] \<and>
   Finite 0 =
     fdiv (fsum (chain_prices {i. \<exists>r \<in> set [scenario_revert]. r_claim_id r = Some i}
       example_directory [scenario_claim, other_claim] ''d1'' ''ChainA''))
     (int (length (chain_prices {i. \<exists>r \<in> set [scenario_revert]. r_claim_id r = Some i}
       example_directory [scenario_claim, other_claim] ''d1'' ''ChainA'')))"
proof -
  have run: "recommendations [scenario_claim, other_claim] [scenario_revert] example_directory =
     Inr [\<lparr>rec_ndc = ''d1'',
           rec_chain = [\<lparr>chain_name = ''ChainA'', chain_avg_price = Finite 0\<rparr>,
                        \<lparr>chain_name = ''Unknown'', chain_avg_price = Finite 4\<rparr>]\<rparr>]"
    by (simp add: recommendations_def reverted_claims_def recommend_body_def append_price_def
        chain_of_def ndc_entry_def chain_average_def sort_eval scenario_claim_def other_claim_def
        scenario_revert_def example_directory_def)
  have prices: "chain_prices {i. \<exists>r \<in> set [scenario_revert]. r_claim_id r = Some i}
      example_directory [scenario_claim, other_claim] ''d1'' ''ChainA'' = [Finite 10, Finite (- 10)]"
    by (simp add: chain_prices_def sold_by_def price_samples_def chain_of_def scenario_claim_def
        other_claim_def scenario_revert_def example_directory_def)
  from recommendations_netting [THEN conjunct2, THEN conjunct1, THEN mp, OF run]
  have "Finite 0 =
     fdiv (fsum (chain_prices {i. \<exists>r \<in> set [scenario_revert]. r_claim_id r = Some i}
       example_directory [scenario_claim, other_claim] ''d1'' ''ChainA''))
     (int (length (chain_prices {i. \<exists>r \<in> set [scenario_revert]. r_claim_id r = Some i}
       example_directory [scenario_claim, other_claim] ''d1'' ''ChainA'')))"
    by auto
  with run prices show ?thesis by (intro conjI)
qed

lemma chain_of_total: "chain_of (\<lambda>n. Some (chain_of dir n)) = chain_of dir"
  by (rule ext) (simp add: chain_of_def)

section \<open>Dependence on the revert list\<close>

lemma for_each_cong_set:
  assumes "\<And>x s. x \<in> set xs \<Longrightarrow> body x s = body' x s"
  shows "for_each body xs s = for_each body' xs s"
  using assms
proof (induction xs arbitrary: s)
  case Nil
  show ?case by simp
next
  case (Cons x xs)
  have "body x s = body' x s" by (rule Cons.prems) simp
  moreover have "for_each body xs = for_each body' xs"
    by (rule ext, rule Cons.IH) (simp add: Cons.prems)
  ultimately show ?case by simp
qed

lemma metrics_body_agree:
  assumes "\<forall>i. c_id c = Some i \<longrightarrow> (i \<in> S \<longleftrightarrow> i \<in> S')"
  shows "metrics_body S c m = metrics_body S' c m"
  using assms
  by (cases "c_npi c"; cases "c_ndc c"; cases "c_price c"; cases "c_id c")
    (simp_all add: metrics_body_def Let_def)

lemma recommend_body_agree:
  assumes "\<forall>i. c_id c = Some i \<longrightarrow> (i \<in> S \<longleftrightarrow> i \<in> S')"
  shows "recommend_body S dir c m = recommend_body S' dir c m"
  using assms
  by (cases "c_npi c"; cases "c_ndc c"; cases "c_price c"; cases "c_id c")
    (simp_all add: recommend_body_def Let_def)

lemma prescribed_body_agree:
  assumes "\<forall>i. c_id c = Some i \<longrightarrow> (i \<in> S \<longleftrightarrow> i \<in> S')"
  shows "prescribed_body S c m = prescribed_body S' c m"
  using assms
  by (cases "c_npi c"; cases "c_ndc c"; cases "c_id c")
    (simp_all add: prescribed_body_def Let_def)

lemma reverted_claims_incomplete:
  assumes "\<not> (\<forall>r \<in> set reverts. revert_complete r)"
  shows "reverted_claims reverts = Inl (KeyError ''claim_id'')"
proof (cases "reverted_claims reverts")
  case (Inl e)
  with reverted_claims_Inl [OF Inl] show ?thesis by simp
next
  case (Inr S)
  with reverted_claims_Inr [OF Inr] assms show ?thesis by simp
qed

text \<open>
  C7. The three aggregators depend on the revert list only through the set of its
  \<^verbatim>\<open>claim_id\<close> values, and of that set only through the ids that some claim bears: two revert
  lists whose sets of claim ids hold the same ids of input claims give the same results
  (a revert without \<^verbatim>\<open>claim_id\<close> makes every aggregator fail, so the two lists must both have
  such a revert or both have none). Duplicated and reordered reverts leave the set unchanged,
  and a revert whose claim id is no claim's id adds no id of a claim.
\<close>

theorem reverts_only_as_set:
  assumes "(\<forall>r \<in> set reverts. revert_complete r) \<longleftrightarrow> (\<forall>r \<in> set reverts'. revert_complete r)"
    and "\<forall>c \<in> set claims. \<forall>i. c_id c = Some i \<longrightarrow>
           ((\<exists>r \<in> set reverts. r_claim_id r = Some i) \<longleftrightarrow>
            (\<exists>r \<in> set reverts'. r_claim_id r = Some i))"
  shows "calculate_metrics claims reverts = calculate_metrics claims reverts' \<and>
         most_prescribed claims reverts = most_prescribed claims reverts' \<and>
         recommendations claims reverts dir = recommendations claims reverts' dir"
proof (cases "\<forall>r \<in> set reverts. revert_complete r")
  case False
  with assms(1) have "\<not> (\<forall>r \<in> set reverts'. revert_complete r)" by simp
  with False have "reverted_claims reverts = Inl (KeyError ''claim_id'')"
    "reverted_claims reverts' = Inl (KeyError ''claim_id'')"
    by (simp_all add: reverted_claims_incomplete)
  then show ?thesis
    by (simp add: calculate_metrics_def most_prescribed_def recommendations_def)
next
  case True
  then obtain S where S: "reverted_claims reverts = Inr S"
    using reverted_claims_complete by blast
  from True assms(1) obtain S' where S': "reverted_claims reverts' = Inr S'"
    using reverted_claims_complete by blast
  from S have S_eq: "S = {i. \<exists>r \<in> set reverts. r_claim_id r = Some i}"
    using reverted_claims_Inr by blast
  from S' have S'_eq: "S' = {i. \<exists>r \<in> set reverts'. r_claim_id r = Some i}"
    using reverted_claims_Inr by blast
  have agree: "\<forall>i. c_id c = Some i \<longrightarrow> (i \<in> S \<longleftrightarrow> i \<in> S')" if "c \<in> set claims" for c
    using assms(2) that unfolding S_eq S'_eq by simp
  have "for_each (metrics_body S) claims [] = for_each (metrics_body S') claims []"
    by (rule for_each_cong_set) (rule metrics_body_agree, rule agree)
  moreover have "for_each (prescribed_body S) claims [] = for_each (prescribed_body S') claims []"
    by (rule for_each_cong_set) (rule prescribed_body_agree, rule agree)
  moreover have "for_each (recommend_body S dir) claims [] = for_each (recommend_body S' dir) claims []"
    by (rule for_each_cong_set) (rule recommend_body_agree, rule agree)
  ultimately show ?thesis
    using S S' by (simp add: calculate_metrics_def most_prescribed_def recommendations_def)
qed

theorem reverts_only_as_set_witness:
  "revert_complete scenario_revert \<and> revert_complete dangling_revert \<and>
   calculate_metrics [scenario_claim, other_claim] [dangling_revert, scenario_revert, scenario_revert] =
     calculate_metrics [scenario_claim, other_claim] [scenario_revert] \<and>
   most_prescribed [scenario_claim, other_claim] [dangling_revert, scenario_revert, scenario_revert] =
     most_prescribed [scenario_claim, other_claim] [scenario_revert] \<and>
   recommendations [scenario_claim, other_claim] [dangling_revert, scenario_revert, scenario_revert]
       example_directory =
     recommendations [scenario_claim, other_claim] [scenario_revert] example_directory"
proof -
  have r: "revert_complete scenario_revert" "revert_complete dangling_revert"
    by (simp_all add: revert_complete_def scenario_revert_def dangling_revert_def)
  then have r1: "\<forall>r \<in> set [dangling_revert, scenario_revert, scenario_revert]. revert_complete r"
    and r2: "\<forall>r \<in> set [scenario_revert]. revert_complete r"
    by simp_all
  have same: "\<forall>c \<in> set [scenario_claim, other_claim]. \<forall>i. c_id c = Some i \<longrightarrow>
      ((\<exists>r \<in> set [dangling_revert, scenario_revert, scenario_revert]. r_claim_id r = Some i) \<longleftrightarrow>
       (\<exists>r \<in> set [scenario_revert]. r_claim_id r = Some i))"
    by (simp add: scenario_claim_def other_claim_def scenario_revert_def dangling_revert_def)
  from r1 r2 have both: "(\<forall>r \<in> set [dangling_revert, scenario_revert, scenario_revert]. revert_complete r)
      \<longleftrightarrow> (\<forall>r \<in> set [scenario_revert]. revert_complete r)"
    by simp
  show ?thesis
    by (rule conjI [OF r(1) conjI [OF r(2) reverts_only_as_set [OF both same]]])
qed

section \<open>Missing keys\<close>

lemma for_each_map: "for_each body (map f xs) s = for_each (\<lambda>x. body (f x)) xs s"
  by (induction xs arbitrary: s) (simp_all add: and_then_def split: sum.splits)

lemma for_each_KeyError:
  assumes "x \<in> set xs" and "\<And>s. \<exists>k. body x s = Inl (KeyError k)"
    and "\<And>y s e. body y s = Inl e \<Longrightarrow> \<exists>k. e = KeyError k"
  shows "\<exists>k. for_each body xs s = Inl (KeyError k)"
  using assms(1)
proof (induction xs arbitrary: s)
  case Nil
  then show ?case by simp
next
  case (Cons y ys)
  show ?case
  proof (cases "body y s")
    case (Inl e)
    with assms(3) [of y s e] show ?thesis by auto
  next
    case (Inr s1)
    with assms(2) [of s] have "y \<noteq> x" by auto
    with Cons.prems have "x \<in> set ys" by simp
    from Cons.IH [OF this, of s1] Inr show ?thesis by simp
  qed
qed

lemma metrics_body_Inl: "metrics_body S c m = Inl e \<Longrightarrow> \<exists>k. e = KeyError k"
  by (cases "c_npi c"; cases "c_ndc c"; cases "c_price c"; cases "c_id c")
    (auto simp: metrics_body_def Let_def split: if_splits)

lemma prescribed_body_Inl: "prescribed_body S c m = Inl e \<Longrightarrow> \<exists>k. e = KeyError k"
  by (cases "c_npi c"; cases "c_ndc c"; cases "c_id c")
    (auto simp: prescribed_body_def Let_def split: if_splits)

lemma metrics_body_missing:
  "c_npi c = None \<or> c_ndc c = None \<or> c_price c = None \<Longrightarrow> \<exists>k. metrics_body S c m = Inl (KeyError k)"
  by (cases "c_npi c"; cases "c_ndc c"; cases "c_price c")
    (auto simp: metrics_body_def Let_def)

lemma recommend_body_missing:
  "c_npi c = None \<or> c_ndc c = None \<or> c_price c = None \<Longrightarrow>
     \<exists>k. recommend_body S dir c m = Inl (KeyError k)"
  by (cases "c_npi c"; cases "c_ndc c"; cases "c_price c")
    (auto simp: recommend_body_def Let_def)

lemma prescribed_body_missing:
  "c_npi c = None \<or> c_ndc c = None \<Longrightarrow> \<exists>k. prescribed_body S c m = Inl (KeyError k)"
  by (cases "c_npi c"; cases "c_ndc c") (auto simp: prescribed_body_def Let_def)

lemma aggregator_KeyError:
  assumes "\<And>S. \<exists>k. loop S = Inl (KeyError k)"
  shows "\<exists>k. and_then (reverted_claims reverts) (\<lambda>S. and_then (loop S) finish) = Inl (KeyError k)"
proof (cases "reverted_claims reverts")
  case (Inl e)
  with reverted_claims_Inl [OF Inl] show ?thesis by simp
next
  case (Inr S)
  with assms [of S] show ?thesis by auto
qed

lemma calculate_metrics_missing:
  assumes "c \<in> set claims" and "c_npi c = None \<or> c_ndc c = None \<or> c_price c = None"
  shows "\<exists>k. calculate_metrics claims reverts = Inl (KeyError k)"
  unfolding calculate_metrics_def
  by (rule aggregator_KeyError, rule for_each_KeyError [OF assms(1)])
    (rule metrics_body_missing [OF assms(2)], rule metrics_body_Inl)

lemma recommendations_missing:
  assumes "c \<in> set claims" and "c_npi c = None \<or> c_ndc c = None \<or> c_price c = None"
  shows "\<exists>k. recommendations claims reverts dir = Inl (KeyError k)"
  unfolding recommendations_def
  by (rule aggregator_KeyError, rule for_each_KeyError [OF assms(1)])
    (rule recommend_body_missing [OF assms(2)], rule recommend_body_Inl)

lemma most_prescribed_missing:
  assumes "c \<in> set claims" and "c_npi c = None \<or> c_ndc c = None"
  shows "\<exists>k. most_prescribed claims reverts = Inl (KeyError k)"
  unfolding most_prescribed_def
  by (rule aggregator_KeyError, rule for_each_KeyError [OF assms(1)])
    (rule prescribed_body_missing [OF assms(2)], rule prescribed_body_Inl)

text \<open>
  A claim without \<^verbatim>\<open>quantity\<close> does not make any aggregator fail, and \<open>most_prescribed\<close> returns
  a result for a claim without \<^verbatim>\<open>price\<close>.
\<close>

theorem missing_quantity_counterexample:
  "c_quantity (scenario_claim\<lparr>c_quantity := None\<rparr>) = None \<and>
   calculate_metrics [scenario_claim\<lparr>c_quantity := None\<rparr>] [] =
     Inr [\<lparr>npi = ''p1'', ndc = ''d1'', fills = 1, reverted = 0, avg_price = Finite 10, total_price = Finite 10\<rparr>] \<and>
   most_prescribed [scenario_claim\<lparr>c_quantity := None\<rparr>] [] =
     Inr [\<lparr>mp_ndc = ''d1'', most_prescribed_quantity = [0]\<rparr>] \<and>
   recommendations [scenario_claim\<lparr>c_quantity := None\<rparr>] [] example_directory =
     Inr [\<lparr>rec_ndc = ''d1'',
           rec_chain = [\<lparr>chain_name = ''ChainA'', chain_avg_price = Finite 10\<rparr>]\<rparr>] \<and>
   c_price (scenario_claim\<lparr>c_price := None\<rparr>) = None \<and>
   most_prescribed [scenario_claim\<lparr>c_price := None\<rparr>] [] =
     Inr [\<lparr>mp_ndc = ''d1'', most_prescribed_quantity = [30]\<rparr>]"
  by (simp add: calculate_metrics_def most_prescribed_def recommendations_def reverted_claims_def
      metrics_body_def default_metric_def emit_metric_def prescribed_body_def quantity_of_def
      prescribed_entry_def counter_def most_common_def recommend_body_def append_price_def
      chain_of_def ndc_entry_def chain_average_def sort_eval scenario_claim_def example_directory_def)

text \<open>
  C4, as the code has it. A claim without \<^verbatim>\<open>npi\<close> or \<^verbatim>\<open>ndc\<close> makes each of the three aggregators
  fail with a \<^verbatim>\<open>KeyError\<close>; a claim without \<^verbatim>\<open>price\<close> makes \<open>calculate_metrics\<close> and
  \<open>recommendations\<close> fail with a \<^verbatim>\<open>KeyError\<close>. A missing \<^verbatim>\<open>quantity\<close> is no fault:
  \<open>most_prescribed\<close> reads it as 0.0, and the other two aggregators do not read the quantity at
  all; \<open>most_prescribed\<close> does not read the price.
\<close>

theorem missing_keys:
  "(c \<in> set claims \<and> (c_npi c = None \<or> c_ndc c = None) \<longrightarrow>
      (\<exists>k. calculate_metrics claims reverts = Inl (KeyError k)) \<and>
      (\<exists>k. most_prescribed claims reverts = Inl (KeyError k)) \<and>
      (\<exists>k. recommendations claims reverts dir = Inl (KeyError k))) \<and>
   (c \<in> set claims \<and> c_price c = None \<longrightarrow>
      (\<exists>k. calculate_metrics claims reverts = Inl (KeyError k)) \<and>
      (\<exists>k. recommendations claims reverts dir = Inl (KeyError k))) \<and>
   most_prescribed (map (\<lambda>c. c\<lparr>c_quantity := Some (quantity_of c)\<rparr>) claims) reverts =
     most_prescribed claims reverts \<and>
   calculate_metrics (map (c_quantity_update f) claims) reverts = calculate_metrics claims reverts \<and>
   recommendations (map (c_quantity_update f) claims) reverts dir =
     recommendations claims reverts dir \<and>
   most_prescribed (map (c_price_update g) claims) reverts = most_prescribed claims reverts"
proof (intro conjI impI)
  assume a: "c \<in> set claims \<and> (c_npi c = None \<or> c_ndc c = None)"
  then show "\<exists>k. calculate_metrics claims reverts = Inl (KeyError k)"
    by (intro calculate_metrics_missing [of c]) auto
  from a show "\<exists>k. most_prescribed claims reverts = Inl (KeyError k)"
    by (intro most_prescribed_missing [of c]) auto
  from a show "\<exists>k. recommendations claims reverts dir = Inl (KeyError k)"
    by (intro recommendations_missing [of c]) auto
next
  assume a: "c \<in> set claims \<and> c_price c = None"
  then show "\<exists>k. calculate_metrics claims reverts = Inl (KeyError k)"
    by (intro calculate_metrics_missing [of c]) auto
  from a show "\<exists>k. recommendations claims reverts dir = Inl (KeyError k)"
    by (intro recommendations_missing [of c]) auto
next
  have "prescribed_body S (c\<lparr>c_quantity := Some (quantity_of c)\<rparr>) = prescribed_body S c" for S c
    by (rule ext) (simp add: prescribed_body_def quantity_of_def)
  then show "most_prescribed (map (\<lambda>c. c\<lparr>c_quantity := Some (quantity_of c)\<rparr>) claims) reverts =
     most_prescribed claims reverts"
    by (simp add: most_prescribed_def for_each_map)
next
  have "metrics_body S (c_quantity_update f c) = metrics_body S c" for S c
    by (rule ext) (simp add: metrics_body_def)
  then show "calculate_metrics (map (c_quantity_update f) claims) reverts =
      calculate_metrics claims reverts"
    by (simp add: calculate_metrics_def for_each_map)
next
  have "recommend_body S dir (c_quantity_update f c) = recommend_body S dir c" for S c
    by (rule ext) (simp add: recommend_body_def)
  then show "recommendations (map (c_quantity_update f) claims) reverts dir =
     recommendations claims reverts dir"
    by (simp add: recommendations_def for_each_map)
next
  have "prescribed_body S (c_price_update g c) = prescribed_body S c" for S c
    by (rule ext) (simp add: prescribed_body_def quantity_of_def)
  then show "most_prescribed (map (c_price_update g) claims) reverts = most_prescribed claims reverts"
    by (simp add: most_prescribed_def for_each_map)
qed

theorem missing_keys_witness:
  "c_ndc (other_claim\<lparr>c_ndc := None\<rparr>) = None \<and>
   calculate_metrics [scenario_claim, other_claim\<lparr>c_ndc := None\<rparr>] [scenario_revert] =
     Inl (KeyError ''ndc'') \<and>
   most_prescribed [scenario_claim, other_claim\<lparr>c_ndc := None\<rparr>] [scenario_revert] =
     Inl (KeyError ''ndc'') \<and>
   recommendations [scenario_claim, other_claim\<lparr>c_ndc := None\<rparr>] [scenario_revert]
     example_directory = Inl (KeyError ''ndc'') \<and>
   ((\<exists>k. calculate_metrics [scenario_claim, other_claim\<lparr>c_ndc := None\<rparr>] [scenario_revert] =
       Inl (KeyError k)) \<and>
    (\<exists>k. most_prescribed [scenario_claim, other_claim\<lparr>c_ndc := None\<rparr>] [scenario_revert] =
       Inl (KeyError k)) \<and>
    (\<exists>k. recommendations [scenario_claim, other_claim\<lparr>c_ndc := None\<rparr>] [scenario_revert]
       example_directory = Inl (KeyError k)))"
proof -
  let ?claims = "[scenario_claim, other_claim\<lparr>c_ndc := None\<rparr>]"
  have hyp: "other_claim\<lparr>c_ndc := None\<rparr> \<in> set ?claims \<and>
      (c_npi (other_claim\<lparr>c_ndc := None\<rparr>) = None \<or> c_ndc (other_claim\<lparr>c_ndc := None\<rparr>) = None)"
    by simp
  have general: "(\<exists>k. calculate_metrics ?claims [scenario_revert] = Inl (KeyError k)) \<and>
      (\<exists>k. most_prescribed ?claims [scenario_revert] = Inl (KeyError k)) \<and>
      (\<exists>k. recommendations ?claims [scenario_revert] example_directory = Inl (KeyError k))"
    by (rule missing_keys [THEN conjunct1, THEN mp, OF hyp])
  have runs: "c_ndc (other_claim\<lparr>c_ndc := None\<rparr>) = None"
    "calculate_metrics ?claims [scenario_revert] = Inl (KeyError ''ndc'')"
    "most_prescribed ?claims [scenario_revert] = Inl (KeyError ''ndc'')"
    "recommendations ?claims [scenario_revert] example_directory = Inl (KeyError ''ndc'')"
    by (simp_all add: calculate_metrics_def most_prescribed_def recommendations_def
        reverted_claims_def metrics_body_def default_metric_def prescribed_body_def quantity_of_def
        recommend_body_def append_price_def chain_of_def scenario_claim_def other_claim_def
        scenario_revert_def example_directory_def)
  show ?thesis
    by (rule conjI [OF runs(1) conjI [OF runs(2) conjI [OF runs(3) conjI [OF runs(4) general]]]])
qed

section \<open>Claims on most\_prescribed\<close>

lemma first_index_append_old: "q \<in> set xs \<Longrightarrow> first_index (xs @ ys) q = first_index xs q"
  by (simp add: first_index_def takeWhile_append1 [where x = q])

lemma first_index_less: "q \<in> set xs \<Longrightarrow> first_index xs q < length xs"
  unfolding first_index_def
  by (induction xs) auto

lemma first_index_append_new:
  assumes "q \<notin> set xs"
  shows "first_index (xs @ [q]) q = length xs"
proof -
  have "takeWhile (\<lambda>y. y \<noteq> q) (xs @ [q]) = xs @ takeWhile (\<lambda>y. y \<noteq> q) [q]"
    by (rule takeWhile_append2) (use assms in auto)
  then show ?thesis by (simp add: first_index_def)
qed

lemma counter_snoc: "counter (xs @ [x]) = dd_apply 0 (\<lambda>n. n + 1) x (counter xs)"
  by (simp add: counter_def)

lemma keys_counter: "set (map fst (counter xs)) = set xs \<and> distinct (map fst (counter xs))"
proof (induction xs rule: rev_induct)
  case Nil
  show ?case by (simp add: counter_def)
next
  case (snoc x xs)
  then show ?case
    by (auto simp: counter_snoc keys_dd_apply)
qed

lemma dd_get_counter: "dd_get 0 (counter xs) q = int (count_list xs q)"
proof (induction xs arbitrary: q rule: rev_induct)
  case Nil
  show ?case by (simp add: counter_def dd_get_def)
next
  case (snoc x xs)
  then show ?case
    by (simp add: counter_snoc dd_get_dd_apply)
qed

lemma counter_item:
  assumes "item \<in> set (counter xs)"
  shows "snd item = int (count_list xs (fst item))"
proof -
  obtain k v where item: "item = (k, v)" by (cases item)
  have "distinct (map fst (counter xs))"
    using keys_counter [of xs] by simp
  from dd_get_entry [OF this, of k v 0] assms
  have "dd_get 0 (counter xs) (fst item) = snd item"
    by (simp add: item)
  then show ?thesis by (simp add: dd_get_counter)
qed

lemma counter_first_seen:
  "sorted_wrt (\<lambda>a b. first_index xs a < first_index xs b) (map fst (counter xs))"
proof (induction xs rule: rev_induct)
  case Nil
  show ?case by (simp add: counter_def)
next
  case (snoc x xs)
  let ?keys = "map fst (counter xs)"
  have keys: "set ?keys = set xs"
    using keys_counter [of xs] by simp
  have old: "sorted_wrt (\<lambda>a b. first_index (xs @ [x]) a < first_index (xs @ [x]) b) ?keys"
  proof (rule sorted_wrt_mono_rel [OF _ snoc.IH])
    fix a b
    assume "a \<in> set ?keys" "b \<in> set ?keys" "first_index xs a < first_index xs b"
    with keys show "first_index (xs @ [x]) a < first_index (xs @ [x]) b"
      by (simp add: first_index_append_old)
  qed
  show ?case
  proof (cases "x \<in> set xs")
    case True
    with keys old show ?thesis
      by (simp add: counter_snoc keys_dd_apply)
  next
    case False
    have "first_index (xs @ [x]) a < first_index (xs @ [x]) x" if "a \<in> set xs" for a
      using that False by (simp add: first_index_append_old first_index_append_new first_index_less)
    with keys old False show ?thesis
      by (simp add: counter_snoc keys_dd_apply sorted_wrt_append)
  qed
qed

lemma insort_key_ranked:
  fixes f :: "'a \<Rightarrow> 'b::linorder"
  assumes "sorted_wrt (\<lambda>a b. f a < f b \<or> (f a = f b \<and> T a b)) ys"
    and "\<forall>y \<in> set ys. T x y"
  shows "sorted_wrt (\<lambda>a b. f a < f b \<or> (f a = f b \<and> T a b)) (insort_key f x ys)"
  using assms
proof (induction ys)
  case Nil
  show ?case by simp
next
  case (Cons y ys)
  show ?case
  proof (cases "f x \<le> f y")
    case True
    have "f x < f z \<or> (f x = f z \<and> T x z)" if "z \<in> set (y # ys)" for z
    proof -
      from Cons.prems(1) that have "f y \<le> f z" by auto
      with True have "f x \<le> f z" by simp
      moreover from Cons.prems(2) that have "T x z" by auto
      ultimately show ?thesis by auto
    qed
    with True Cons.prems(1) show ?thesis by simp
  next
    case False
    from Cons.prems have "sorted_wrt (\<lambda>a b. f a < f b \<or> (f a = f b \<and> T a b)) (insort_key f x ys)"
      by (intro Cons.IH) simp_all
    with False Cons.prems(1) show ?thesis
      by (auto simp: set_insort_key)
  qed
qed

lemma sort_key_ranked:
  fixes f :: "'a \<Rightarrow> 'b::linorder"
  assumes "sorted_wrt T xs"
  shows "sorted_wrt (\<lambda>a b. f a < f b \<or> (f a = f b \<and> T a b)) (sort_key f xs)"
  using assms
proof (induction xs)
  case Nil
  show ?case by simp
next
  case (Cons x xs)
  then show ?case
    by (simp add: insort_key_ranked)
qed

lemma distinct_map_insort_key:
  "distinct (map g (insort_key f x ys)) \<longleftrightarrow> g x \<notin> g ` set ys \<and> distinct (map g ys)"
  by (induction ys) (auto simp: set_insort_key)

lemma distinct_map_sort_key: "distinct (map g (sort_key f xs)) \<longleftrightarrow> distinct (map g xs)"
  by (induction xs) (simp_all add: distinct_map_insort_key)

lemma most_common_counter:
  "distinct (map fst (most_common (counter xs))) \<and>
   set (map fst (most_common (counter xs))) = set xs \<and>
   sorted_wrt (ranks_before xs) (map fst (most_common (counter xs)))"
proof (intro conjI)
  show "distinct (map fst (most_common (counter xs)))"
    using keys_counter [of xs] by (simp add: most_common_def distinct_map_sort_key)
  show "set (map fst (most_common (counter xs))) = set xs"
    using keys_counter [of xs] by (simp add: most_common_def)
  let ?T = "\<lambda>a b. first_index xs (fst a) < first_index xs (fst b)"
  let ?f = "\<lambda>item :: 'a \<times> int. - snd item"
  have "sorted_wrt ?T (counter xs)"
    using counter_first_seen [of xs] by (simp add: sorted_wrt_map)
  then have "sorted_wrt (\<lambda>a b. ?f a < ?f b \<or> (?f a = ?f b \<and> ?T a b)) (sort_key ?f (counter xs))"
    by (rule sort_key_ranked)
  then have "sorted_wrt (\<lambda>a b. ranks_before xs (fst a) (fst b)) (sort_key ?f (counter xs))"
  proof (rule sorted_wrt_mono_rel [rotated])
    fix a b
    assume "a \<in> set (sort_key ?f (counter xs))" "b \<in> set (sort_key ?f (counter xs))"
    then have "snd a = int (count_list xs (fst a))" "snd b = int (count_list xs (fst b))"
      by (simp_all add: counter_item)
    moreover assume "?f a < ?f b \<or> (?f a = ?f b \<and> ?T a b)"
    ultimately show "ranks_before xs (fst a) (fst b)"
      by (auto simp: ranks_before_def)
  qed
  then show "sorted_wrt (ranks_before xs) (map fst (most_common (counter xs)))"
    by (simp add: most_common_def sorted_wrt_map)
qed

lemma prescribed_body_Inr:
  "prescribed_body S c m = Inr m' \<longleftrightarrow>
     (\<exists>n d i. c_npi c = Some n \<and> c_ndc c = Some d \<and> c_id c = Some i \<and>
        m' = (if i \<notin> S then dd_apply [] (\<lambda>quantities. quantities @ [quantity_of c]) d m else m))"
  by (cases "c_npi c"; cases "c_ndc c"; cases "c_id c")
    (auto simp: prescribed_body_def Let_def)

lemma prescribed_loop_quantities:
  "for_each (prescribed_body S) claims m = Inr m' \<Longrightarrow>
     dd_get [] m' d = dd_get [] m d @ kept_quantities S claims d"
proof (induction claims arbitrary: m)
  case Nil
  then show ?case by (simp add: kept_quantities_def)
next
  case (Cons c cs)
  from Cons.prems obtain m1 where m1: "prescribed_body S c m = Inr m1"
    and rest: "for_each (prescribed_body S) cs m1 = Inr m'"
    by (auto simp: and_then_eq_Inr)
  from m1 have "dd_get [] m1 d = dd_get [] m d @ kept_quantities S [c] d"
    by (auto simp: prescribed_body_Inr dd_get_dd_apply kept_quantities_def)
  with Cons.IH [OF rest] show ?case
    by (simp add: kept_quantities_def)
qed

lemma prescribed_loop_keys:
  assumes "for_each (prescribed_body S) claims [] = Inr m"
  shows "distinct (map fst m) \<and> (\<forall>kv \<in> set m. snd kv \<noteq> [])"
proof (rule for_each_invariant [OF assms,
      where I = "\<lambda>m. distinct (map fst m) \<and> (\<forall>kv \<in> set m. snd kv \<noteq> [])"])
  show "distinct (map fst []) \<and> (\<forall>kv \<in> set ([] :: (string \<times> real list) list). snd kv \<noteq> [])"
    by simp
next
  fix c s s'
  assume inv: "distinct (map fst s) \<and> (\<forall>kv \<in> set s. snd kv \<noteq> [])"
    and step: "prescribed_body S c s = Inr s'"
  show "distinct (map fst s') \<and> (\<forall>kv \<in> set s'. snd kv \<noteq> [])"
  proof (cases "s' = s")
    case True
    with inv show ?thesis by simp
  next
    case False
    with step obtain d where s': "s' = dd_apply [] (\<lambda>quantities. quantities @ [quantity_of c]) d s"
      by (auto simp: prescribed_body_Inr split: if_splits)
    from inv have "\<forall>kv \<in> set s'. snd kv \<noteq> []"
      unfolding s' by (intro values_dd_apply) simp_all
    with inv show ?thesis
      unfolding s' by (simp add: distinct_keys_dd_apply)
  qed
qed

lemma for_each_filter_skip:
  assumes "for_each body xs s = Inr s'"
    and "\<And>x s t. x \<in> set xs \<Longrightarrow> \<not> P x \<Longrightarrow> body x s = Inr t \<Longrightarrow> t = s"
  shows "for_each body (filter P xs) s = Inr s'"
  using assms
proof (induction xs arbitrary: s)
  case Nil
  then show ?case by simp
next
  case (Cons x xs)
  from Cons.prems(1) obtain s1 where s1: "body x s = Inr s1" and rest: "for_each body xs s1 = Inr s'"
    by (auto simp: and_then_eq_Inr)
  have IH: "for_each body (filter P xs) s1 = Inr s'"
    by (rule Cons.IH [OF rest]) (rule Cons.prems(2), simp_all)
  show ?case
  proof (cases "P x")
    case True
    with s1 IH show ?thesis by simp
  next
    case False
    with Cons.prems(2) [of x s s1] s1 have "s1 = s" by simp
    with False IH show ?thesis by simp
  qed
qed

lemma most_prescribed_Inr:
  "most_prescribed claims reverts = Inr out \<longleftrightarrow>
     (\<exists>S m. reverted_claims reverts = Inr S \<and> for_each (prescribed_body S) claims [] = Inr m \<and>
        out = map prescribed_entry m)"
  by (auto simp: most_prescribed_def and_then_eq_Inr)

text \<open>
  C3. For every entry returned by \<open>most_prescribed\<close>, the list \<open>most_prescribed_quantity\<close> holds
  exactly the distinct quantities of the drug's claims that are not reverted, each once, the
  more frequent before the less frequent and, of two equally frequent ones, the one met first
  among those claims before the other. Claims whose id is in the reversal set contribute
  nothing: the result is the one obtained after removing them from the input.
\<close>

theorem most_prescribed_ranking:
  assumes "most_prescribed claims reverts = Inr out"
  shows "(\<forall>e \<in> set out.
            kept_quantities {i. \<exists>r \<in> set reverts. r_claim_id r = Some i} claims (mp_ndc e) \<noteq> [] \<and>
            distinct (most_prescribed_quantity e) \<and>
            set (most_prescribed_quantity e) =
              set (kept_quantities {i. \<exists>r \<in> set reverts. r_claim_id r = Some i} claims (mp_ndc e)) \<and>
            sorted_wrt
              (ranks_before
                 (kept_quantities {i. \<exists>r \<in> set reverts. r_claim_id r = Some i} claims (mp_ndc e)))
              (most_prescribed_quantity e)) \<and>
         most_prescribed
           (filter (\<lambda>c. case c_id c of None \<Rightarrow> True
                       | Some i \<Rightarrow> i \<notin> {i. \<exists>r \<in> set reverts. r_claim_id r = Some i}) claims)
           reverts = Inr out"
proof -
  let ?S = "{i. \<exists>r \<in> set reverts. r_claim_id r = Some i}"
  from assms obtain S m where S: "reverted_claims reverts = Inr S"
    and m: "for_each (prescribed_body S) claims [] = Inr m"
    and out: "out = map prescribed_entry m"
    by (auto simp: most_prescribed_Inr)
  from S have S_eq: "S = ?S"
    using reverted_claims_Inr by blast
  have entries: "kept_quantities ?S claims (mp_ndc e) \<noteq> [] \<and>
      distinct (most_prescribed_quantity e) \<and>
      set (most_prescribed_quantity e) = set (kept_quantities ?S claims (mp_ndc e)) \<and>
      sorted_wrt (ranks_before (kept_quantities ?S claims (mp_ndc e))) (most_prescribed_quantity e)"
    if "e \<in> set out" for e
  proof -
    from that out obtain d qs where kv: "(d, qs) \<in> set m" and e: "e = prescribed_entry (d, qs)"
      by auto
    from prescribed_loop_keys [OF m] kv have "dd_get [] m d = qs" "qs \<noteq> []"
      by (auto simp: dd_get_entry)
    with prescribed_loop_quantities [OF m, of d] have qs: "qs = kept_quantities ?S claims d" "qs \<noteq> []"
      by (simp_all add: dd_get_def S_eq)
    from e have "mp_ndc e = d" "most_prescribed_quantity e = map fst (most_common (counter qs))"
      by (simp_all add: prescribed_entry_def)
    with most_common_counter [of qs] qs show ?thesis by simp
  qed
  have "for_each (prescribed_body S) (filter (\<lambda>c. case c_id c of None \<Rightarrow> True | Some i \<Rightarrow> i \<notin> S) claims) []
      = Inr m"
    by (rule for_each_filter_skip [OF m]) (auto simp: prescribed_body_Inr split: option.splits)
  with S have "most_prescribed (filter (\<lambda>c. case c_id c of None \<Rightarrow> True | Some i \<Rightarrow> i \<notin> S) claims)
      reverts = Inr out"
    by (simp add: most_prescribed_def out)
  with entries show ?thesis
    unfolding S_eq by blast
qed

theorem most_prescribed_ranking_witness:
  "most_prescribed
     [scenario_claim, quantity_claim ''a'' 5, quantity_claim ''b'' 3, quantity_claim ''c'' 3,
      quantity_claim ''d'' 5]
     [scenario_revert] = Inr [\<lparr>mp_ndc = ''d1'', most_prescribed_quantity = [5, 3]\<rparr>] \<and>
   kept_quantities {i. \<exists>r \<in> set [scenario_revert]. r_claim_id r = Some i}
     [scenario_claim, quantity_claim ''a'' 5, quantity_claim ''b'' 3, quantity_claim ''c'' 3,
      quantity_claim ''d'' 5] ''d1'' = [5, 3, 3, 5] \<and>
   sorted_wrt
     (ranks_before
        (kept_quantities {i. \<exists>r \<in> set [scenario_revert]. r_claim_id r = Some i}
           [scenario_claim, quantity_claim ''a'' 5, quantity_claim ''b'' 3, quantity_claim ''c'' 3,
            quantity_claim ''d'' 5] ''d1''))
     [5, 3] \<and>
   most_prescribed
     [quantity_claim ''a'' 5, quantity_claim ''b'' 3, quantity_claim ''c'' 3, quantity_claim ''d'' 5]
     [scenario_revert] = Inr [\<lparr>mp_ndc = ''d1'', most_prescribed_quantity = [5, 3]\<rparr>]"
proof -
  let ?claims = "[scenario_claim, quantity_claim ''a'' 5, quantity_claim ''b'' 3,
    quantity_claim ''c'' 3, quantity_claim ''d'' 5]"
  have run: "most_prescribed ?claims [scenario_revert] =
      Inr [\<lparr>mp_ndc = ''d1'', most_prescribed_quantity = [5, 3]\<rparr>]"
    by (simp add: most_prescribed_def reverted_claims_def prescribed_body_def quantity_of_def
        prescribed_entry_def counter_def most_common_def scenario_claim_def scenario_revert_def
        quantity_claim_def)
  have kept: "kept_quantities {i. \<exists>r \<in> set [scenario_revert]. r_claim_id r = Some i} ?claims ''d1''
      = [5, 3, 3, 5]"
    by (simp add: kept_quantities_def quantity_of_def scenario_claim_def scenario_revert_def
        quantity_claim_def)
  note general = most_prescribed_ranking [OF run]
  from general [THEN conjunct1]
  have ranked: "sorted_wrt
     (ranks_before
        (kept_quantities {i. \<exists>r \<in> set [scenario_revert]. r_claim_id r = Some i} ?claims ''d1''))
     [5, 3]"
    by simp
  from general [THEN conjunct2]
  have filtered: "most_prescribed
     [quantity_claim ''a'' 5, quantity_claim ''b'' 3, quantity_claim ''c'' 3, quantity_claim ''d'' 5]
     [scenario_revert] = Inr [\<lparr>mp_ndc = ''d1'', most_prescribed_quantity = [5, 3]\<rparr>]"
    by (simp add: scenario_claim_def scenario_revert_def quantity_claim_def)
  show ?thesis
    by (rule conjI [OF run conjI [OF kept conjI [OF ranked filtered]]])
qed

section \<open>Ranking of the chains\<close>

lemma flt_imp_fle: "flt a b \<Longrightarrow> fle a b"
  by (cases a; cases b) auto

lemma not_flt_imp_fle: "a \<noteq> NaN \<Longrightarrow> b \<noteq> NaN \<Longrightarrow> \<not> flt b a \<Longrightarrow> fle a b"
  by (cases a; cases b) auto

lemma fle_trans: "fle a b \<Longrightarrow> fle b c \<Longrightarrow> fle a c"
  by (cases a; cases b; cases c) auto

lemma sorted_insert_by_key:
  assumes "sorted_wrt (\<lambda>a b. fle (key a) (key b)) ys"
    and "key x \<noteq> NaN" and "\<forall>y \<in> set ys. key y \<noteq> NaN"
  shows "sorted_wrt (\<lambda>a b. fle (key a) (key b)) (insert_by_key key x ys)"
  using assms
proof (induction ys)
  case Nil
  show ?case by simp
next
  case (Cons y ys)
  show ?case
  proof (cases "flt (key y) (key x)")
    case True
    from Cons.prems have "sorted_wrt (\<lambda>a b. fle (key a) (key b)) (insert_by_key key x ys)"
      by (intro Cons.IH) simp_all
    with True Cons.prems(1) show ?thesis
      by (auto simp: set_insert_by_key flt_imp_fle)
  next
    case False
    with Cons.prems have xy: "fle (key x) (key y)"
      by (simp add: not_flt_imp_fle)
    have "fle (key x) (key z)" if "z \<in> set ys" for z
    proof -
      from Cons.prems(1) that have "fle (key y) (key z)" by simp
      with xy show ?thesis by (rule fle_trans)
    qed
    with False xy Cons.prems(1) show ?thesis by simp
  qed
qed

lemma sorted_stable_sort:
  assumes "\<forall>x \<in> set xs. key x \<noteq> NaN"
  shows "sorted_wrt (\<lambda>a b. fle (key a) (key b)) (stable_sort key xs)"
  using assms
proof (induction xs)
  case Nil
  show ?case by (simp add: stable_sort_def)
next
  case (Cons x xs)
  then have "sorted_wrt (\<lambda>a b. fle (key a) (key b)) (stable_sort key xs)"
    by simp
  with Cons.prems have "sorted_wrt (\<lambda>a b. fle (key a) (key b))
      (insert_by_key key x (stable_sort key xs))"
    by (intro sorted_insert_by_key) (simp_all add: set_stable_sort)
  then show ?case by (simp add: stable_sort_def)
qed

lemma sorted_list_sort:
  assumes "\<forall>x \<in> set xs. key x \<noteq> NaN"
  shows "sorted_wrt (\<lambda>a b. fle (key a) (key b)) (list_sort key xs)"
  using sorted_stable_sort [OF assms] assms by (simp add: list_sort_def list_all_iff)

lemma outside_top_two_length:
  assumes "u \<in> set ys" and "u \<notin> set (take 2 ys)"
  shows "2 < length ys"
proof (rule ccontr)
  assume "\<not> 2 < length ys"
  then have "take 2 ys = ys" by simp
  with assms show False by simp
qed

lemma outside_top_two:
  assumes "sorted_wrt R ys" and "u \<in> set ys" and "u \<notin> set (take 2 ys)"
  shows "\<forall>y \<in> set (take 2 ys). R y u"
proof
  fix y assume "y \<in> set (take 2 ys)"
  then obtain j where j: "j < 2" "j < length ys" "ys ! j = y"
    by (auto simp: in_set_conv_nth)
  from assms(2) obtain i where i: "i < length ys" "ys ! i = u"
    by (auto simp: in_set_conv_nth)
  have "2 \<le> i"
  proof (rule ccontr)
    assume "\<not> 2 \<le> i"
    with i have "u \<in> set (take 2 ys)"
      by (auto simp: in_set_conv_nth intro!: exI [of _ i])
    with assms(3) show False by simp
  qed
  with j have "j < i" by simp
  from sorted_wrt_nth_less [OF assms(1) this i(1)] j i show "R y u" by simp
qed

text \<open>
  C6. The claim is that every chain list returned by \<open>recommendations\<close> has at most two
  elements, with averages in ascending order. The function does not keep the order when an
  average is \<^verbatim>\<open>nan\<close>: for the claims a (p1, price 5.0), b (p2, price \<^verbatim>\<open>inf\<close>, reverted) and
  c (p3, price 1.0) of one drug, with p1 in ChainA and p3 in ChainB, the averages are 5.0,
  \<^verbatim>\<open>nan\<close> and 1.0, the sort leaves them as they are, and the result is ChainA 5.0 followed by
  Unknown \<^verbatim>\<open>nan\<close>: not ascending, and without ChainB, which has the lowest average.
\<close>

theorem recommendations_nan_average:
  "recommendations
     [priced_claim ''a'' ''p1'' (Finite 5), priced_claim ''b'' ''p2'' PosInf,
      priced_claim ''c'' ''p3'' (Finite 1)]
     [revert_of ''b''] example_directory =
     Inr [\<lparr>rec_ndc = ''d1'',
           rec_chain = [\<lparr>chain_name = ''ChainA'', chain_avg_price = Finite 5\<rparr>,
                        \<lparr>chain_name = ''Unknown'', chain_avg_price = NaN\<rparr>]\<rparr>] \<and>
   \<not> sorted_wrt (\<lambda>a b. fle (chain_avg_price a) (chain_avg_price b))
       [\<lparr>chain_name = ''ChainA'', chain_avg_price = Finite 5\<rparr>,
        \<lparr>chain_name = ''Unknown'', chain_avg_price = NaN\<rparr>] \<and>
   mean (chain_prices {''b''} example_directory
     [priced_claim ''a'' ''p1'' (Finite 5), priced_claim ''b'' ''p2'' PosInf,
      priced_claim ''c'' ''p3'' (Finite 1)] ''d1'' ''ChainB'') = Finite 1"
  by (simp add: recommendations_def reverted_claims_def recommend_body_def append_price_def
      chain_of_def ndc_entry_def chain_average_def sort_eval priced_claim_def revert_of_def
      example_directory_def mean_def chain_prices_def sold_by_def price_samples_def)

lemma set_first_seen: "set (first_seen xs) = set xs"
  by (induction xs) auto

lemma first_seen_snoc:
  "first_seen (xs @ [x]) = (if x \<in> set xs then first_seen xs else first_seen xs @ [x])"
  by (induction xs) (auto simp: set_first_seen)

lemma first_seen_snoc_twice: "first_seen ((xs @ [x]) @ [x]) = first_seen (xs @ [x])"
  by (simp only: first_seen_snoc [of "xs @ [x]" x]) simp

lemma keys_dd_apply_first_seen:
  assumes "map fst m = first_seen ks"
  shows "map fst (dd_apply d f k m) = first_seen (ks @ [k])"
proof -
  from assms have "fst ` set m = set ks"
    by (metis set_first_seen set_map)
  with assms show ?thesis
    by (simp add: keys_dd_apply first_seen_snoc)
qed

lemma for_each_snoc:
  "for_each body (xs @ [x]) s = and_then (for_each body xs s) (body x)"
  by (induction xs arbitrary: s) (simp_all add: and_then_def split: sum.splits)

lemma alist_by_keys:
  "distinct (map fst m) \<Longrightarrow> m = map (\<lambda>k. (k, dd_get d m k)) (map fst m)"
proof (induction m)
  case Nil
  show ?case by simp
next
  case (Cons kv m)
  obtain k v where kv: "kv = (k, v)" by (cases kv)
  from Cons.prems kv have notin: "k \<notin> fst ` set m" and dist: "distinct (map fst m)"
    by auto
  have "map (\<lambda>k'. (k', dd_get d ((k, v) # m) k')) (map fst m) =
      map (\<lambda>k'. (k', dd_get d m k')) (map fst m)"
    using notin by (intro map_cong) (auto simp: dd_get_def)
  with Cons.IH [OF dist] show ?case
    by (simp add: kv dd_get_def)
qed

lemma collect_map:
  assumes "\<And>x. x \<in> set xs \<Longrightarrow> g x = Inr (h x)"
  shows "collect g xs = Inr (map h xs)"
  using assms by (induction xs) simp_all

lemma keys_append_price:
  assumes "map fst m = first_seen ks"
  shows "map fst (append_price d ch x m) = first_seen (ks @ [d])"
  unfolding append_price_def using assms by (rule keys_dd_apply_first_seen)

lemma inner_append_price:
  "dd_get [] (append_price d ch x m) d' =
     (if d' = d then dd_apply [] (\<lambda>prices. prices @ [x]) ch (dd_get [] m d) else dd_get [] m d')"
  by (simp add: append_price_def dd_get_dd_apply)

lemma inner_keys_append_price:
  assumes "map fst (dd_get [] m d') = first_seen chs"
  shows "map fst (dd_get [] (append_price d ch x m) d') =
         first_seen (chs @ (if d' = d then [ch] else []))"
proof (cases "d' = d")
  case True
  with assms have "map fst (dd_get [] m d) = first_seen chs" by simp
  then have "map fst (dd_apply [] (\<lambda>prices. prices @ [x]) ch (dd_get [] m d)) =
      first_seen (chs @ [ch])"
    by (rule keys_dd_apply_first_seen)
  with True show ?thesis by (simp add: inner_append_price)
next
  case False
  with assms show ?thesis by (simp add: inner_append_price)
qed

lemma recommend_loop_keys:
  "for_each (recommend_body S dir) claims [] = Inr m \<Longrightarrow>
     map fst m = ndcs_of claims \<and> (\<forall>d. map fst (dd_get [] m d) = chains_of dir claims d)"
proof (induction claims arbitrary: m rule: rev_induct)
  case Nil
  then show ?case
    by (simp add: ndcs_of_def chains_of_def List.map_filter_def dd_get_def)
next
  case (snoc c cs)
  let ?g = "\<lambda>d c. if c_ndc c = Some d then map_option (chain_of dir) (c_npi c) else None"
  from snoc.prems obtain m0 where m0: "for_each (recommend_body S dir) cs [] = Inr m0"
    and step: "recommend_body S dir c m0 = Inr m"
    by (auto simp: for_each_snoc and_then_eq_Inr)
  from step obtain n d p i where c: "c_npi c = Some n" "c_ndc c = Some d"
    and m: "m = (if i \<in> S
        then append_price d (chain_of dir n) (fneg p) (append_price d (chain_of dir n) p m0)
        else append_price d (chain_of dir n) p m0)"
    by (auto simp: recommend_body_Inr)
  let ?ch = "chain_of dir n"
  let ?m1 = "append_price d ?ch p m0"
  from snoc.IH [OF m0] have keys0: "map fst m0 = first_seen (List.map_filter c_ndc cs)"
    and inner0: "map fst (dd_get [] m0 d') = first_seen (List.map_filter (?g d') cs)" for d'
    by (simp_all add: ndcs_of_def chains_of_def)
  have ndcs: "ndcs_of (cs @ [c]) = first_seen (List.map_filter c_ndc cs @ [d])"
    using c by (simp add: ndcs_of_def List.map_filter_def)
  have chains: "chains_of dir (cs @ [c]) d' =
      first_seen (List.map_filter (?g d') cs @ (if d' = d then [?ch] else []))" for d'
    using c by (auto simp: chains_of_def List.map_filter_def)
  have keys1: "map fst ?m1 = first_seen (List.map_filter c_ndc cs @ [d])"
    using keys0 by (rule keys_append_price)
  have inner1: "map fst (dd_get [] ?m1 d') =
      first_seen (List.map_filter (?g d') cs @ (if d' = d then [?ch] else []))" for d'
    using inner0 by (rule inner_keys_append_price)
  show ?case
  proof (cases "i \<in> S")
    case False
    with m keys1 inner1 ndcs chains show ?thesis by simp
  next
    case True
    have "map fst (append_price d ?ch (fneg p) ?m1) =
        first_seen ((List.map_filter c_ndc cs @ [d]) @ [d])"
      using keys1 by (rule keys_append_price)
    then have keys2: "map fst (append_price d ?ch (fneg p) ?m1) =
        first_seen (List.map_filter c_ndc cs @ [d])"
      by (simp only: first_seen_snoc_twice)
    have inner3: "map fst (dd_get [] (append_price d ?ch (fneg p) ?m1) d') =
        first_seen ((List.map_filter (?g d') cs @ (if d' = d then [?ch] else []))
          @ (if d' = d then [?ch] else []))" for d'
      using inner1 by (rule inner_keys_append_price)
    have inner2: "map fst (dd_get [] (append_price d ?ch (fneg p) ?m1) d') =
        first_seen (List.map_filter (?g d') cs @ (if d' = d then [?ch] else []))" for d'
    proof (cases "d' = d")
      case True
      from inner3 [of d'] show ?thesis
        unfolding True by (simp only: if_True first_seen_snoc_twice refl)
    next
      case False
      from inner3 [of d'] False show ?thesis by simp
    qed
    from True m keys2 inner2 ndcs chains show ?thesis by simp
  qed
qed

lemma chain_average_mean:
  "snd cv \<noteq> [] \<Longrightarrow>
     chain_average cv = Inr \<lparr>chain_name = fst cv, chain_avg_price = mean (snd cv)\<rparr>"
  by (simp add: chain_average_Inr mean_def)

lemma recommend_loop_inner:
  assumes m: "for_each (recommend_body S dir) claims [] = Inr m" and d: "d \<in> set (ndcs_of claims)"
  shows "(d, dd_get [] m d) \<in> set m \<and>
         dd_get [] m d =
           map (\<lambda>ch. (ch, chain_prices S dir claims d ch)) (chains_of dir claims d) \<and>
         (\<forall>ch \<in> set (chains_of dir claims d). chain_prices S dir claims d ch \<noteq> [])"
proof -
  let ?inner = "dd_get [] m d"
  from recommend_loop_keys [OF m] have keys: "map fst m = ndcs_of claims"
    and inner_keys: "map fst ?inner = chains_of dir claims d"
    by simp_all
  from recommend_loop_well_keyed [OF m] have wk: "well_keyed m" .
  from d keys have "d \<in> fst ` set m"
    by (metis set_map)
  then obtain v where v: "(d, v) \<in> set m"
    by auto
  with wk have "?inner = v"
    by (simp add: well_keyed_def dd_get_entry)
  with v have present: "(d, ?inner) \<in> set m" by simp
  with wk have dist: "distinct (map fst ?inner)" and ne: "\<forall>cv \<in> set ?inner. snd cv \<noteq> []"
    by (auto simp: well_keyed_def nonempty_lists_def)
  have looked_up: "dd_get [] ?inner ch = chain_prices S dir claims d ch" for ch
    using recommend_loop_prices [OF m, of d ch] by (simp add: dd_get_def)
  from alist_by_keys [OF dist, of "[]"]
  have shape: "?inner = map (\<lambda>ch. (ch, chain_prices S dir claims d ch)) (chains_of dir claims d)"
    by (simp add: inner_keys looked_up)
  from ne have "\<forall>ch \<in> set (chains_of dir claims d). chain_prices S dir claims d ch \<noteq> []"
    by (subst (asm) shape) simp
  with present shape show ?thesis by blast
qed

lemma recommendations_refines_spec:
  assumes "recommendations claims reverts dir = Inr out"
  shows "out = recommendations_spec {i. \<exists>r \<in> set reverts. r_claim_id r = Some i} dir claims"
proof -
  let ?S = "{i. \<exists>r \<in> set reverts. r_claim_id r = Some i}"
  from assms obtain S m where S: "reverted_claims reverts = Inr S"
    and m: "for_each (recommend_body S dir) claims [] = Inr m"
    and out: "collect ndc_entry m = Inr out"
    by (auto simp: recommendations_Inr)
  from S have S_eq: "S = ?S"
    using reverted_claims_Inr by blast
  let ?entry = "\<lambda>d. \<lparr>rec_ndc = d,
      rec_chain = take 2 (list_sort chain_avg_price
        (map (chain_record S dir claims d) (chains_of dir claims d)))\<rparr>"
  from recommend_loop_keys [OF m] have keys: "map fst m = ndcs_of claims" by simp
  from recommend_loop_well_keyed [OF m] have dist: "distinct (map fst m)"
    by (simp add: well_keyed_def)
  have entry: "ndc_entry (d, dd_get [] m d) = Inr (?entry d)" if d: "d \<in> set (ndcs_of claims)" for d
  proof -
    from recommend_loop_inner [OF m d]
    have shape: "dd_get [] m d =
        map (\<lambda>ch. (ch, chain_prices S dir claims d ch)) (chains_of dir claims d)"
      and ne: "\<forall>ch \<in> set (chains_of dir claims d). chain_prices S dir claims d ch \<noteq> []"
      by simp_all
    have "collect chain_average (dd_get [] m d) =
        Inr (map (\<lambda>cv. \<lparr>chain_name = fst cv, chain_avg_price = mean (snd cv)\<rparr>) (dd_get [] m d))"
      by (rule collect_map, rule chain_average_mean) (use ne in \<open>subst (asm) shape, auto\<close>)
    also have "map (\<lambda>cv. \<lparr>chain_name = fst cv, chain_avg_price = mean (snd cv)\<rparr>) (dd_get [] m d) =
        map (chain_record S dir claims d) (chains_of dir claims d)"
      by (subst shape) (simp add: chain_record_def comp_def)
    finally show ?thesis by (simp add: ndc_entry_def)
  qed
  have "ndc_entry kv = Inr (?entry (fst kv))" if kv: "kv \<in> set m" for kv
  proof -
    from kv have "fst kv \<in> set (map fst m)" by simp
    with keys have d: "fst kv \<in> set (ndcs_of claims)" by simp
    obtain k v where kv_eq: "kv = (k, v)" by (cases kv)
    from kv dist have "dd_get [] m (fst kv) = snd kv"
      by (simp add: kv_eq dd_get_entry)
    with entry [OF d] show ?thesis by simp
  qed
  then have "collect ndc_entry m = Inr (map (\<lambda>kv. ?entry (fst kv)) m)"
    by (rule collect_map)
  with out have "out = map ?entry (map fst m)"
    by (simp add: comp_def)
  with keys have "out = map ?entry (ndcs_of claims)"
    by simp
  then show ?thesis
    by (simp add: recommendations_spec_def S_eq)
qed

lemma recommendations_top_two_without_nan:
  assumes "recommendations claims reverts dir = Inr out" and "e \<in> set out"
  shows "length (rec_chain e) \<le> 2 \<and>
         ((\<forall>ch. mean (chain_prices {i. \<exists>r \<in> set reverts. r_claim_id r = Some i} dir claims
               (rec_ndc e) ch) \<noteq> NaN) \<longrightarrow>
            sorted_wrt (\<lambda>a b. fle (chain_avg_price a) (chain_avg_price b)) (rec_chain e))"
proof -
  let ?S = "{i. \<exists>r \<in> set reverts. r_claim_id r = Some i}"
  from assms obtain d where e: "e = \<lparr>rec_ndc = d,
      rec_chain = take 2 (list_sort chain_avg_price
        (map (chain_record ?S dir claims d) (chains_of dir claims d)))\<rparr>"
    using recommendations_refines_spec [OF assms(1)] by (auto simp: recommendations_spec_def)
  have "sorted_wrt (\<lambda>a b. fle (chain_avg_price a) (chain_avg_price b)) (rec_chain e)"
    if "\<forall>ch. mean (chain_prices ?S dir claims (rec_ndc e) ch) \<noteq> NaN"
  proof -
    from that have "\<forall>x \<in> set (map (chain_record ?S dir claims d) (chains_of dir claims d)).
        chain_avg_price x \<noteq> NaN"
      by (auto simp: e chain_record_def)
    then have "sorted_wrt (\<lambda>a b. fle (chain_avg_price a) (chain_avg_price b))
        (list_sort chain_avg_price (map (chain_record ?S dir claims d) (chains_of dir claims d)))"
      by (rule sorted_list_sort)
    then show ?thesis
      unfolding e by (simp add: sorted_wrt_take)
  qed
  moreover have "length (rec_chain e) \<le> 2"
    by (simp add: e)
  ultimately show ?thesis by blast
qed

lemma unknown_in_spec:
  assumes "c \<in> set claims" and "c_npi c = Some n" and "dir n = None" and "c_ndc c = Some d"
  shows "d \<in> set (ndcs_of claims) \<and> ''Unknown'' \<in> set (chains_of dir claims d)"
proof -
  from assms(1,4) have "d \<in> set (List.map_filter c_ndc claims)"
    by (force simp: List.map_filter_def)
  moreover from assms have "''Unknown'' \<in> set (List.map_filter
      (\<lambda>c. if c_ndc c = Some d then map_option (chain_of dir) (c_npi c) else None) claims)"
    by (force simp: List.map_filter_def chain_of_def)
  ultimately show ?thesis
    by (simp add: ndcs_of_def chains_of_def set_first_seen)
qed

text \<open>
  C9. In \<open>recommendations\<close> a claim whose npi has no entry in the directory counts for the chain
  \<open>''Unknown''\<close> and is never left out. The result is the one described by
  \<open>recommendations_spec\<close>, where \<open>''Unknown''\<close> is among the chains of the claim's drug and its
  record, with the average of the prices of such claims, is in the list that is sorted and cut
  to two. So the entry of the drug either has the record of \<open>''Unknown''\<close>, or has two chains,
  which (when no average of the drug is \<^verbatim>\<open>nan\<close>) both have an average not above that of
  \<open>''Unknown''\<close>. The result is also the one obtained with a directory that maps every absent
  npi to a chain of that name.
\<close>

theorem unknown_npi_is_chain_Unknown:
  "(recommendations claims reverts dir = Inr out \<longrightarrow>
      out = recommendations_spec {i. \<exists>r \<in> set reverts. r_claim_id r = Some i} dir claims) \<and>
   (c \<in> set claims \<and> c_npi c = Some n \<and> dir n = None \<and> c_ndc c = Some d \<longrightarrow>
      d \<in> set (ndcs_of claims) \<and> ''Unknown'' \<in> set (chains_of dir claims d)) \<and>
   (recommendations claims reverts dir = Inr out \<and>
    c \<in> set claims \<and> c_npi c = Some n \<and> dir n = None \<and> c_ndc c = Some d \<longrightarrow>
      (\<exists>e \<in> set out. rec_ndc e = d \<and>
         (chain_record {i. \<exists>r \<in> set reverts. r_claim_id r = Some i} dir claims d ''Unknown''
            \<in> set (rec_chain e) \<or>
          (length (rec_chain e) = 2 \<and>
           ((\<forall>ch. mean (chain_prices {i. \<exists>r \<in> set reverts. r_claim_id r = Some i} dir claims d ch)
                 \<noteq> NaN) \<longrightarrow>
            (\<forall>cr \<in> set (rec_chain e).
               fle (chain_avg_price cr)
                 (mean (chain_prices {i. \<exists>r \<in> set reverts. r_claim_id r = Some i} dir claims d
                    ''Unknown'')))))))) \<and>
   recommendations claims reverts dir =
     recommendations claims reverts (\<lambda>n. Some (chain_of dir n))"
proof (intro conjI impI)
  assume "recommendations claims reverts dir = Inr out"
  then show "out = recommendations_spec {i. \<exists>r \<in> set reverts. r_claim_id r = Some i} dir claims"
    by (rule recommendations_refines_spec)
next
  assume "c \<in> set claims \<and> c_npi c = Some n \<and> dir n = None \<and> c_ndc c = Some d"
  then show "d \<in> set (ndcs_of claims)" and "''Unknown'' \<in> set (chains_of dir claims d)"
    using unknown_in_spec [of c claims n dir d] by simp_all
next
  let ?S = "{i. \<exists>r \<in> set reverts. r_claim_id r = Some i}"
  let ?records = "map (chain_record ?S dir claims d) (chains_of dir claims d)"
  let ?u = "chain_record ?S dir claims d ''Unknown''"
  let ?e = "\<lparr>rec_ndc = d, rec_chain = take 2 (list_sort chain_avg_price ?records)\<rparr>"
  assume a: "recommendations claims reverts dir = Inr out \<and>
    c \<in> set claims \<and> c_npi c = Some n \<and> dir n = None \<and> c_ndc c = Some d"
  then have out: "out = recommendations_spec ?S dir claims"
    using recommendations_refines_spec by blast
  from a have d: "d \<in> set (ndcs_of claims)" and unknown: "''Unknown'' \<in> set (chains_of dir claims d)"
    using unknown_in_spec [of c claims n dir d] by simp_all
  from d have e: "?e \<in> set out"
    unfolding out recommendations_spec_def by (simp only: set_map) (rule imageI)
  from unknown have u: "?u \<in> set (list_sort chain_avg_price ?records)"
    by (simp add: set_list_sort)
  have "?u \<in> set (rec_chain ?e) \<or>
      (length (rec_chain ?e) = 2 \<and>
       ((\<forall>ch. mean (chain_prices ?S dir claims d ch) \<noteq> NaN) \<longrightarrow>
        (\<forall>cr \<in> set (rec_chain ?e).
           fle (chain_avg_price cr) (mean (chain_prices ?S dir claims d ''Unknown'')))))"
  proof (cases "?u \<in> set (take 2 (list_sort chain_avg_price ?records))")
    case True
    then show ?thesis by simp
  next
    case False
    from outside_top_two_length [OF u False]
    have len: "length (take 2 (list_sort chain_avg_price ?records)) = 2" by simp
    have "\<forall>cr \<in> set (take 2 (list_sort chain_avg_price ?records)).
        fle (chain_avg_price cr) (mean (chain_prices ?S dir claims d ''Unknown''))"
      if "\<forall>ch. mean (chain_prices ?S dir claims d ch) \<noteq> NaN"
    proof -
      from that have "\<forall>x \<in> set ?records. chain_avg_price x \<noteq> NaN"
        by (auto simp: chain_record_def)
      then have "sorted_wrt (\<lambda>a b. fle (chain_avg_price a) (chain_avg_price b))
          (list_sort chain_avg_price ?records)"
        by (rule sorted_list_sort)
      from outside_top_two [OF this u False] show ?thesis
        by (simp add: chain_record_def)
    qed
    with len show ?thesis by simp
  qed
  with e show "\<exists>e \<in> set out. rec_ndc e = d \<and>
         (?u \<in> set (rec_chain e) \<or>
          (length (rec_chain e) = 2 \<and>
           ((\<forall>ch. mean (chain_prices ?S dir claims d ch) \<noteq> NaN) \<longrightarrow>
            (\<forall>cr \<in> set (rec_chain e).
               fle (chain_avg_price cr) (mean (chain_prices ?S dir claims d ''Unknown''))))))"
    by (intro bexI [of _ ?e]) simp_all
next
  have "recommend_body S (\<lambda>n. Some (chain_of dir n)) = recommend_body S dir" for S
    by (intro ext) (simp add: recommend_body_def chain_of_total)
  then show "recommendations claims reverts dir =
     recommendations claims reverts (\<lambda>n. Some (chain_of dir n))"
    by (simp add: recommendations_def)
qed

theorem unknown_npi_is_chain_Unknown_witness:
  "recommendations [scenario_claim, other_claim, third_claim] [] example_directory =
     Inr [\<lparr>rec_ndc = ''d1'',
           rec_chain = [\<lparr>chain_name = ''Unknown'', chain_avg_price = Finite 4\<rparr>,
                        \<lparr>chain_name = ''ChainB'', chain_avg_price = Finite 7\<rparr>]\<rparr>] \<and>
   chain_record {i. \<exists>r \<in> set ([] :: revert list). r_claim_id r = Some i} example_directory
     [scenario_claim, other_claim, third_claim] ''d1'' ''Unknown'' =
     \<lparr>chain_name = ''Unknown'', chain_avg_price = Finite 4\<rparr> \<and>
   [\<lparr>rec_ndc = ''d1'',
      rec_chain = [\<lparr>chain_name = ''Unknown'', chain_avg_price = Finite 4\<rparr>,
                   \<lparr>chain_name = ''ChainB'', chain_avg_price = Finite 7\<rparr>]\<rparr>] =
     recommendations_spec {i. \<exists>r \<in> set ([] :: revert list). r_claim_id r = Some i} example_directory
       [scenario_claim, other_claim, third_claim] \<and>
   ''d1'' \<in> set (ndcs_of [scenario_claim, other_claim, third_claim]) \<and>
   ''Unknown'' \<in> set (chains_of example_directory [scenario_claim, other_claim, third_claim] ''d1'')"
proof -
  let ?claims = "[scenario_claim, other_claim, third_claim]"
  have run: "recommendations ?claims [] example_directory =
     Inr [\<lparr>rec_ndc = ''d1'',
           rec_chain = [\<lparr>chain_name = ''Unknown'', chain_avg_price = Finite 4\<rparr>,
                        \<lparr>chain_name = ''ChainB'', chain_avg_price = Finite 7\<rparr>]\<rparr>]"
    by (simp add: recommendations_def reverted_claims_def recommend_body_def append_price_def
        chain_of_def ndc_entry_def chain_average_def sort_eval scenario_claim_def other_claim_def
        third_claim_def example_directory_def)
  have unknown_rec: "chain_record {i. \<exists>r \<in> set ([] :: revert list). r_claim_id r = Some i} example_directory
      ?claims ''d1'' ''Unknown'' = \<lparr>chain_name = ''Unknown'', chain_avg_price = Finite 4\<rparr>"
    by (simp add: chain_record_def mean_def fsum_def chain_prices_def sold_by_def
        price_samples_def chain_of_def scenario_claim_def other_claim_def third_claim_def
        example_directory_def)
  have hyp: "other_claim \<in> set ?claims \<and> c_npi other_claim = Some ''p2'' \<and>
      example_directory ''p2'' = None \<and> c_ndc other_claim = Some ''d1''"
    by (simp add: other_claim_def example_directory_def)
  note general = unknown_npi_is_chain_Unknown
  from general [THEN conjunct1, THEN mp, OF run]
  have described: "[\<lparr>rec_ndc = ''d1'',
      rec_chain = [\<lparr>chain_name = ''Unknown'', chain_avg_price = Finite 4\<rparr>,
                   \<lparr>chain_name = ''ChainB'', chain_avg_price = Finite 7\<rparr>]\<rparr>] =
     recommendations_spec {i. \<exists>r \<in> set ([] :: revert list). r_claim_id r = Some i} example_directory ?claims" .
  from general [where dir = example_directory and n = "''p2''" and c = other_claim,
      THEN conjunct2, THEN conjunct1, THEN mp, OF hyp]
  have present: "''d1'' \<in> set (ndcs_of ?claims) \<and>
      ''Unknown'' \<in> set (chains_of example_directory ?claims ''d1'')" .
  show ?thesis
    by (rule conjI [OF run conjI [OF unknown_rec conjI [OF described present]]])
qed

end
